theory Spec2Isabelle
  imports Main
begin

section \<open>Values, exceptions and task bodies\<close>

text \<open>
  The source instantiates \<open>task<T>\<close> at \<open>T = int\<close> only. C++ \<open>int\<close> values are modelled
  by \<open>int\<close>: the demonstration never leaves the range in which \<open>a + b\<close> is defined.
  An address identifies one \<open>task<T>::state\<close> object (the target of an
  \<open>executable_sptr\<close>); a thread id identifies a \<open>std::jthread\<close> of the pool or a caller
  thread.
\<close>

type_synonym addr = nat
type_synonym tid = nat

datatype exn = User_exception nat | Promise_already_satisfied

datatype outcome = Value int | Failure exn

text \<open>
  User code (a coroutine body, or the plain function \<open>test_async_fib\<close>) in
  continuation form. \<open>Call b k\<close> is \<open>auto c{ f(args) }\<close> for a coroutine function whose
  body is \<open>b\<close>; \<open>Get_result c k\<close> is \<open>c.get_result()\<close> (an exception it rethrows
  propagates, the source has no handler); \<open>Destroy c\<close> is the end of the scope of the
  task variable \<open>c\<close>; \<open>Printf i r\<close> is the line printed by \<open>test_async_fib\<close>.
\<close>

datatype body =
    Return int
  | Throw exn
  | Call body "addr \<Rightarrow> body"
  | Get_result addr "int \<Rightarrow> body"
  | Destroy addr body
  | Printf int int body

section \<open>The result slot: std::promise and std::shared_future\<close>

text \<open>
  The shared state of \<open>std::promise<T> result_\<close> and \<open>std::shared_future<T>
  shared_future_\<close> is one cell: \<open>None\<close> while not ready, then the stored value or
  exception. The two writers follow the C++ standard library contract: a write to a cell
  that is already satisfied throws \<open>future_error(promise_already_satisfied)\<close> and
  stores nothing.
\<close>

definition set_value :: "int \<Rightarrow> outcome option \<Rightarrow> exn + outcome option" where
  "set_value v r = (case r of None \<Rightarrow> Inr (Some (Value v)) | Some _ \<Rightarrow> Inl Promise_already_satisfied)"

definition set_exception :: "exn \<Rightarrow> outcome option \<Rightarrow> exn + outcome option" where
  "set_exception e r = (case r of None \<Rightarrow> Inr (Some (Failure e)) | Some _ \<Rightarrow> Inl Promise_already_satisfied)"

text \<open>\<open>shared_future::get\<close>: blocks while the cell is not ready, then returns the value
  or rethrows the stored exception; the cell is left as it is.\<close>

datatype retrieval = Blocks | Yields int | Rethrows exn

definition future_get :: "outcome option \<Rightarrow> retrieval" where
  "future_get r = (case r of None \<Rightarrow> Blocks | Some (Value v) \<Rightarrow> Yields v | Some (Failure e) \<Rightarrow> Rethrows e)"

section \<open>task<T>::state\<close>

text \<open>
  Member names lose the trailing underscore of the source (\<open>handle_\<close>, \<open>result_\<close>,
  \<open>queue_\<close>, \<open>mutex_\<close>, \<open>threads_\<close>). The field \<open>handle\<close> is \<open>None\<close> for
  \<open>nullptr\<close>; otherwise it refers to a coroutine that is suspended at some point of
  its body, or that is being run by a thread.
  \<open>use_count\<close> is the strong count of the \<open>shared_ptr\<close> control block of the state.
\<close>

datatype coroutine = Suspended body | Active

record state =
  use_count :: nat
  handle :: "coroutine option"
  result :: "outcome option"

definition set_result :: "int \<Rightarrow> state \<Rightarrow> exn + state" where
  "set_result v st = (case set_value v (result st) of Inl e \<Rightarrow> Inl e | Inr r \<Rightarrow> Inr (st\<lparr>result := r\<rparr>))"

definition get_result :: "state \<Rightarrow> outcome option" where
  "get_result st = result st"

text \<open>\<open>task<T>::get_result\<close>: \<open>shared_state_->get_result().get()\<close>.\<close>

definition task_get_result :: "state \<Rightarrow> retrieval" where
  "task_get_result st = future_get (get_result st)"

section \<open>Threads, the pool and the heap of task states\<close>

text \<open>
  What a thread that runs user code is doing: running the code itself, or inside the
  call of a coroutine function, after \<open>get_return_object\<close>: in \<open>await_suspend\<close>, then at
  each line of \<open>thread_pool::schedule\<close>. The body carried along is the caller's code after
  the call returns.
\<close>

datatype act =
    Run body
  | Await_suspend addr body
  | Lock_guard addr body
  | Push addr body
  | Unlock_guard body
  | Notify_one body

datatype role = Coroutine addr | Plain

text \<open>
  The program counter of a thread. \<open>Acquire\<close> to \<open>Execute\<close> and \<open>End_iteration\<close> are
  the lines of \<open>thread_pool::run_thread\<close>; \<open>Code\<close> is user code with the task variables
  in scope, inside the coroutine resumed by a worker or on a caller thread;
  \<open>Final_suspend\<close> is a coroutine that has left its body.
\<close>

datatype pc =
    Acquire
  | Test_empty
  | Cv_wait
  | Test_stop
  | Take
  | Release addr
  | Execute addr
  | Code role act "addr list"
  | Final_suspend addr "addr list"
  | End_iteration addr
  | Exited
  | Returned

datatype fault =
    Front_of_empty_queue
  | Resume_invalid_handle
  | Assertion_failed
  | Terminate_called
  | Dangling_task

datatype obs =
    Pushed tid addr
  | Notified tid
  | Resumed tid addr
  | Wrote addr outcome
  | Completed tid addr
  | Got tid addr outcome
  | Printed int int
  | Left tid

record sys =
  threads :: "pc list"
  stop_requested :: "tid \<Rightarrow> bool"
  mutex :: "tid option"
  queue :: "addr list"
  heap :: "addr \<Rightarrow> state option"
  fresh :: addr
  fault :: "fault option"
  trace :: "obs list"

definition emit :: "obs \<Rightarrow> sys \<Rightarrow> sys" where
  "emit e s = s\<lparr>trace := trace s @ [e]\<rparr>"

definition abort :: "fault \<Rightarrow> sys \<Rightarrow> sys" where
  "abort f s = s\<lparr>fault := Some f\<rparr>"

text \<open>The destructor of one \<open>shared_ptr\<close> to the state at \<open>a\<close>: the last one frees it.\<close>

definition release :: "addr \<Rightarrow> sys \<Rightarrow> sys" where
  "release a s =
     (case heap s a of
        None \<Rightarrow> s
      | Some st \<Rightarrow>
          if use_count st \<le> 1 then s\<lparr>heap := (heap s)(a := None)\<rparr>
          else s\<lparr>heap := (heap s)(a \<mapsto> st\<lparr>use_count := use_count st - 1\<rparr>)\<rparr>)"

section \<open>task<T>::coroutine_promise\<close>

text \<open>\<open>get_state\<close>: \<open>shared_state_.lock()\<close>; \<open>None\<close> is the null pointer on which the
  assertion fires.\<close>

definition get_state :: "addr \<Rightarrow> sys \<Rightarrow> state option" where
  "get_state a s = heap s a"

text \<open>\<open>get_return_object\<close>: \<open>make_shared<state>(handle)\<close> at a fresh address, held by the
  returned task object.\<close>

definition get_return_object :: "body \<Rightarrow> sys \<Rightarrow> addr \<times> sys" where
  "get_return_object b s =
     (fresh s,
      s\<lparr>heap := (heap s)(fresh s \<mapsto> \<lparr>use_count = 1, handle = Some (Suspended b), result = None\<rparr>),
        fresh := Suc (fresh s)\<rparr>)"

text \<open>\<open>task_scheduler::await_suspend\<close>: \<open>get_state()\<close> yields one more strong reference,
  the argument of \<open>schedule\<close>.\<close>

definition await_suspend :: "addr \<Rightarrow> sys \<Rightarrow> fault + sys" where
  "await_suspend a s =
     (case get_state a s of
        None \<Rightarrow> Inl Assertion_failed
      | Some st \<Rightarrow> Inr (s\<lparr>heap := (heap s)(a \<mapsto> st\<lparr>use_count := Suc (use_count st)\<rparr>)\<rparr>))"

text \<open>\<open>return_value\<close>: the exception of a refused write is thrown inside the body.\<close>

definition return_value :: "addr \<Rightarrow> int \<Rightarrow> sys \<Rightarrow> fault + (exn + sys)" where
  "return_value a v s =
     (case get_state a s of
        None \<Rightarrow> Inl Assertion_failed
      | Some st \<Rightarrow>
          (case set_result v st of
             Inl e \<Rightarrow> Inr (Inl e)
           | Inr st' \<Rightarrow> Inr (Inr (emit (Wrote a (Value v)) (s\<lparr>heap := (heap s)(a \<mapsto> st')\<rparr>)))))"

text \<open>\<open>unhandled_exception\<close>: an exception that leaves it leaves \<open>resume\<close> and the
  \<open>noexcept\<close> function \<open>execute\<close>, so \<open>std::terminate\<close> is called.\<close>

definition unhandled_exception :: "addr \<Rightarrow> exn \<Rightarrow> sys \<Rightarrow> fault + sys" where
  "unhandled_exception a e s =
     (case get_state a s of
        None \<Rightarrow> Inl Assertion_failed
      | Some st \<Rightarrow>
          (case set_exception e (result st) of
             Inl e' \<Rightarrow> Inl Terminate_called
           | Inr r \<Rightarrow> Inr (emit (Wrote a (Failure e)) (s\<lparr>heap := (heap s)(a \<mapsto> st\<lparr>result := r\<rparr>)\<rparr>))))"

definition final_suspend :: "addr \<Rightarrow> sys \<Rightarrow> fault + sys" where
  "final_suspend a s =
     (case get_state a s of
        None \<Rightarrow> Inl Assertion_failed
      | Some st \<Rightarrow> Inr (s\<lparr>heap := (heap s)(a \<mapsto> st\<lparr>handle := None\<rparr>)\<rparr>))"

text \<open>\<open>state::execute\<close>: \<open>handle.resume()\<close>, undefined unless the handle refers to a
  suspended coroutine.\<close>

definition execute :: "addr \<Rightarrow> sys \<Rightarrow> fault + (body \<times> sys)" where
  "execute a s =
     (case heap s a of
        None \<Rightarrow> Inl Dangling_task
      | Some st \<Rightarrow>
          (case handle st of
             Some (Suspended b) \<Rightarrow> Inr (b, s\<lparr>heap := (heap s)(a \<mapsto> st\<lparr>handle := Some Active\<rparr>)\<rparr>)
           | _ \<Rightarrow> Inl Resume_invalid_handle))"

section \<open>thread_pool\<close>

text \<open>\<open>schedule\<close>, one line at a time: the \<open>lock_guard\<close> (blocked while another thread
  holds \<open>mutex_\<close>), \<open>queue_.push\<close>, the end of the guard's scope, \<open>cva_.notify_one()\<close>.\<close>

fun schedule :: "tid \<Rightarrow> act \<Rightarrow> sys \<Rightarrow> (act \<times> sys) option" where
  "schedule t (Lock_guard a c) s =
     (if mutex s = None then Some (Push a c, s\<lparr>mutex := Some t\<rparr>) else None)"
| "schedule t (Push a c) s = Some (Unlock_guard c, emit (Pushed t a) (s\<lparr>queue := queue s @ [a]\<rparr>))"
| "schedule t (Unlock_guard c) s = Some (Notify_one c, s\<lparr>mutex := None\<rparr>)"
| "schedule t (Notify_one c) s = Some (Run c, emit (Notified t) s)"
| "schedule t _ s = None"

text \<open>
  \<open>run_thread\<close>, one line at a time. \<open>cva_.wait(lock, stoken, pred)\<close> returns at once
  when stop is already requested; otherwise it releases the mutex and blocks, and
  returns, holding the mutex again, once stop is requested or the queue is not empty.
\<close>

fun run_thread :: "tid \<Rightarrow> pc \<Rightarrow> sys \<Rightarrow> (pc \<times> sys) option" where
  "run_thread t Acquire s =
     (if mutex s = None then Some (Test_empty, s\<lparr>mutex := Some t\<rparr>) else None)"
| "run_thread t Test_empty s =
     (if queue s = [] then
        (if stop_requested s t then Some (Test_stop, s) else Some (Cv_wait, s\<lparr>mutex := None\<rparr>))
      else Some (Take, s))"
| "run_thread t Cv_wait s =
     (if mutex s = None \<and> (stop_requested s t \<or> queue s \<noteq> [])
      then Some (Test_stop, s\<lparr>mutex := Some t\<rparr>) else None)"
| "run_thread t Test_stop s =
     (if stop_requested s t then Some (Exited, emit (Left t) (s\<lparr>mutex := None\<rparr>))
      else Some (Take, s))"
| "run_thread t Take s =
     (case queue s of
        [] \<Rightarrow> Some (Take, abort Front_of_empty_queue s)
      | a # q \<Rightarrow> Some (Release a, s\<lparr>queue := q\<rparr>))"
| "run_thread t (Release a) s = Some (Execute a, s\<lparr>mutex := None\<rparr>)"
| "run_thread t (Execute a) s =
     (case execute a s of
        Inl f \<Rightarrow> Some (Execute a, abort f s)
      | Inr (b, s') \<Rightarrow> Some (Code (Coroutine a) (Run b) [], emit (Resumed t a) s'))"
| "run_thread t (End_iteration a) s = Some (Acquire, release a s)"
| "run_thread t _ s = None"

section \<open>User code and the coroutine protocol\<close>

text \<open>A thread inside \<open>schedule\<close> stays in its user code; the call returns to it.\<close>

definition in_schedule :: "tid \<Rightarrow> role \<Rightarrow> act \<Rightarrow> addr list \<Rightarrow> sys \<Rightarrow> (pc \<times> sys) option" where
  "in_schedule t cx c L s =
     (case schedule t c s of None \<Rightarrow> None | Some (c', s') \<Rightarrow> Some (Code cx c' L, s'))"

fun code :: "tid \<Rightarrow> role \<Rightarrow> act \<Rightarrow> addr list \<Rightarrow> sys \<Rightarrow> (pc \<times> sys) option" where
  "code t cx (Run (Call b k)) L s =
     (case get_return_object b s of (a, s') \<Rightarrow> Some (Code cx (Await_suspend a (k a)) (a # L), s'))"
| "code t cx (Await_suspend a c) L s =
     (case await_suspend a s of
        Inl f \<Rightarrow> Some (Code cx (Await_suspend a c) L, abort f s)
      | Inr s' \<Rightarrow> Some (Code cx (Lock_guard a c) L, s'))"
| "code t cx (Run (Get_result x k)) L s =
     (case heap s x of
        None \<Rightarrow> Some (Code cx (Run (Get_result x k)) L, abort Dangling_task s)
      | Some st \<Rightarrow>
          (case task_get_result st of
             Blocks \<Rightarrow> None
           | Yields v \<Rightarrow> Some (Code cx (Run (k v)) L, emit (Got t x (Value v)) s)
           | Rethrows e \<Rightarrow> Some (Code cx (Run (Throw e)) L, emit (Got t x (Failure e)) s)))"
| "code t cx (Run (Destroy x c)) L s =
     (if x \<in> set L then Some (Code cx (Run c) (remove1 x L), release x s)
      else Some (Code cx (Run c) L, s))"
| "code t cx (Run (Printf i v c)) L s = Some (Code cx (Run c) L, emit (Printed i v) s)"
| "code t cx (Run (Throw e)) (x # L) s = Some (Code cx (Run (Throw e)) L, release x s)"
| "code t (Coroutine a) (Run (Throw e)) [] s =
     (case unhandled_exception a e s of
        Inl f \<Rightarrow> Some (Code (Coroutine a) (Run (Throw e)) [], abort f s)
      | Inr s' \<Rightarrow> Some (Final_suspend a [], s'))"
| "code t Plain (Run (Throw e)) [] s = Some (Code Plain (Run (Throw e)) [], abort Terminate_called s)"
| "code t (Coroutine a) (Run (Return v)) L s =
     (case return_value a v s of
        Inl f \<Rightarrow> Some (Code (Coroutine a) (Run (Return v)) L, abort f s)
      | Inr (Inl e) \<Rightarrow> Some (Code (Coroutine a) (Run (Throw e)) L, s)
      | Inr (Inr s') \<Rightarrow> Some (Final_suspend a L, s'))"
| "code t Plain (Run (Return v)) (x # L) s = Some (Code Plain (Run (Return v)) L, release x s)"
| "code t Plain (Run (Return v)) [] s = Some (Returned, s)"
| "code t cx (Lock_guard a c) L s = in_schedule t cx (Lock_guard a c) L s"
| "code t cx (Push a c) L s = in_schedule t cx (Push a c) L s"
| "code t cx (Unlock_guard c) L s = in_schedule t cx (Unlock_guard c) L s"
| "code t cx (Notify_one c) L s = in_schedule t cx (Notify_one c) L s"

text \<open>A coroutine that has left its body destroys the task variables still in scope,
  then runs \<open>final_suspend\<close>, which does not suspend: \<open>resume\<close> and \<open>execute\<close> return.\<close>

fun leave :: "tid \<Rightarrow> addr \<Rightarrow> addr list \<Rightarrow> sys \<Rightarrow> (pc \<times> sys) option" where
  "leave t a (x # L) s = Some (Final_suspend a L, release x s)"
| "leave t a [] s =
     (case final_suspend a s of
        Inl f \<Rightarrow> Some (Final_suspend a [], abort f s)
      | Inr s' \<Rightarrow> Some (End_iteration a, emit (Completed t a) s'))"

section \<open>Interleaving\<close>

definition local_step :: "tid \<Rightarrow> pc \<Rightarrow> sys \<Rightarrow> (pc \<times> sys) option" where
  "local_step t p s =
     (case p of
        Code cx c L \<Rightarrow> code t cx c L s
      | Final_suspend a L \<Rightarrow> leave t a L s
      | _ \<Rightarrow> run_thread t p s)"

text \<open>One step of thread \<open>t\<close>; \<open>None\<close> when it is blocked, has ended, or the process
  has been aborted.\<close>

definition thread_step :: "tid \<Rightarrow> sys \<Rightarrow> sys option" where
  "thread_step t s =
     (if fault s \<noteq> None \<or> \<not> t < length (threads s) then None
      else case local_step t (threads s ! t) s of
             None \<Rightarrow> None
           | Some (p, s') \<Rightarrow> Some (s'\<lparr>threads := (threads s)[t := p]\<rparr>))"

text \<open>\<open>Request_stop t\<close> is \<open>t.request_stop()\<close> of the destructor of the pool.\<close>

datatype event = Step tid | Request_stop tid

fun step :: "event \<Rightarrow> sys \<Rightarrow> sys" where
  "step (Step t) s = (case thread_step t s of None \<Rightarrow> s | Some s' \<Rightarrow> s')"
| "step (Request_stop t) s = s\<lparr>stop_requested := (stop_requested s)(t := True)\<rparr>"

fun run :: "event list \<Rightarrow> sys \<Rightarrow> sys" where
  "run [] s = s"
| "run (e # es) s = run es (step e s)"

text \<open>The pool with \<open>n\<close> workers (\<open>concurrency_level\<close>, 8 by default) and one caller
  thread for each program of \<open>ps\<close>, with thread ids \<open>n\<close>, \<open>n + 1\<close>, ...\<close>

definition init :: "nat \<Rightarrow> body list \<Rightarrow> sys" where
  "init n ps =
     \<lparr>threads = replicate n Acquire @ map (\<lambda>p. Code Plain (Run p) []) ps,
      stop_requested = (\<lambda>t. False),
      mutex = None,
      queue = [],
      heap = (\<lambda>a. None),
      fresh = 0,
      fault = None,
      trace = []\<rparr>"

definition DEFAULT_CONCURRENCY_LEVEL :: nat where
  "DEFAULT_CONCURRENCY_LEVEL = 8"

section \<open>The demonstration\<close>

definition async_add :: "int \<Rightarrow> int \<Rightarrow> body" where
  "async_add a b = Return (a + b)"

function fib_loop :: "int \<Rightarrow> int \<Rightarrow> int \<Rightarrow> int \<Rightarrow> body" where
  "fib_loop n i a b =
     (if i < n - 2
      then Call (async_add a b) (\<lambda>c. Get_result c (\<lambda>r. Destroy c (fib_loop n (i + 1) b r)))
      else Return b)"
  by pat_completeness auto
termination
  by (relation "measure (\<lambda>(n, i, a, b). nat (n - 2 - i))") auto

definition async_fib :: "int \<Rightarrow> body" where
  "async_fib n = (if n \<le> 2 then Return 1 else fib_loop n 0 1 1)"

function test_loop :: "int \<Rightarrow> body" where
  "test_loop i =
     (if i < 10
      then Call (async_fib i) (\<lambda>t. Get_result t (\<lambda>r. Printf i r (Destroy t (test_loop (i + 1)))))
      else Return 0)"
  by pat_completeness auto
termination
  by (relation "measure (\<lambda>i. nat (10 - i))") auto

definition test_async_fib :: body where
  "test_async_fib = test_loop 1"

section \<open>Invariants\<close>

definition total :: "(pc \<Rightarrow> nat) \<Rightarrow> pc list \<Rightarrow> nat" where
  "total f ts = sum_list (map f ts)"

definition others :: "(pc \<Rightarrow> nat) \<Rightarrow> pc list \<Rightarrow> nat \<Rightarrow> nat" where
  "others f ts t = total f (take t ts) + total f (drop (Suc t) ts)"

fun sched :: "addr \<Rightarrow> pc \<Rightarrow> nat" where
  "sched a (Release x) = (if x = a then 1 else 0)"
| "sched a (Execute x) = (if x = a then 1 else 0)"
| "sched a (Code cx (Await_suspend x c) L) = (if x = a then 1 else 0)"
| "sched a (Code cx (Lock_guard x c) L) = (if x = a then 1 else 0)"
| "sched a (Code cx (Push x c) L) = (if x = a then 1 else 0)"
| "sched a _ = 0"

fun running :: "addr \<Rightarrow> pc \<Rightarrow> nat" where
  "running a (Code cx c L) = (case cx of Coroutine x \<Rightarrow> if x = a then 1 else 0 | Plain \<Rightarrow> 0)"
| "running a (Final_suspend x L) = (if x = a then 1 else 0)"
| "running a _ = 0"

fun scoped :: "addr \<Rightarrow> pc \<Rightarrow> nat" where
  "scoped a (Code cx (Await_suspend x c) L) = count_list L a - (if x = a then 1 else 0)"
| "scoped a (Code cx c L) = count_list L a"
| "scoped a (Final_suspend x L) = count_list L a"
| "scoped a (End_iteration x) = (if x = a then 1 else 0)"
| "scoped a _ = 0"

fun wf_pc :: "pc \<Rightarrow> bool" where
  "wf_pc (Code cx (Await_suspend x c) L) = (x \<in> set L)"
| "wf_pc _ = True"

definition pend :: "sys \<Rightarrow> addr \<Rightarrow> nat" where
  "pend s a = count_list (queue s) a + total (sched a) (threads s)"

definition cell_ok :: "sys \<Rightarrow> addr \<Rightarrow> bool" where
  "cell_ok s a =
     (case heap s a of
        None \<Rightarrow> pend s a = 0 \<and> total (running a) (threads s) = 0 \<and> total (scoped a) (threads s) = 0
      | Some st \<Rightarrow>
          a < fresh s \<and> 0 < use_count st
          \<and> use_count st = pend s a + total (running a) (threads s) + total (scoped a) (threads s)
          \<and> pend s a = (case handle st of Some (Suspended b) \<Rightarrow> 1 | _ \<Rightarrow> 0)
          \<and> total (running a) (threads s) = (case handle st of Some Active \<Rightarrow> 1 | _ \<Rightarrow> 0))"

definition heap_ok :: "sys \<Rightarrow> bool" where
  "heap_ok s = ((\<forall>a. cell_ok s a) \<and> list_all wf_pc (threads s))"

definition written_twice :: sys where
  "written_twice =
     \<lparr>threads = [Code (Coroutine 0) (Run (Return 5)) []],
      stop_requested = (\<lambda>t. False),
      mutex = None,
      queue = [],
      heap = (\<lambda>a. None)(0 \<mapsto> \<lparr>use_count = 1, handle = Some Active, result = Some (Value 7)\<rparr>),
      fresh = 1,
      fault = None,
      trace = []\<rparr>"

fun holds_mutex :: "pc \<Rightarrow> bool" where
  "holds_mutex Test_empty = True"
| "holds_mutex Test_stop = True"
| "holds_mutex Take = True"
| "holds_mutex (Release a) = True"
| "holds_mutex (Code cx (Push a c) L) = True"
| "holds_mutex (Code cx (Unlock_guard c) L) = True"
| "holds_mutex _ = False"

definition mutex_at :: "sys \<Rightarrow> tid \<Rightarrow> bool" where
  "mutex_at s t = ((mutex s = Some t) = (t < length (threads s) \<and> holds_mutex (threads s ! t)))"

definition queue_at :: "sys \<Rightarrow> tid \<Rightarrow> bool" where
  "queue_at s t =
     (t < length (threads s) \<longrightarrow>
        (threads s ! t = Take \<longrightarrow> queue s \<noteq> [])
      \<and> (threads s ! t = Test_stop \<longrightarrow> queue s \<noteq> [] \<or> stop_requested s t))"

definition pool_ok :: "sys \<Rightarrow> bool" where
  "pool_ok s = (\<forall>t. mutex_at s t \<and> queue_at s t)"

definition fault_ok :: "sys \<Rightarrow> bool" where
  "fault_ok s = (fault s = None \<or> fault s = Some Dangling_task \<or> fault s = Some Terminate_called)"

definition stable :: "sys \<Rightarrow> bool" where
  "stable s = (heap_ok s \<and> pool_ok s \<and> fault_ok s)"

definition fire_and_forget :: body where
  "fire_and_forget = Call (async_add 3 4) (\<lambda>c. Destroy c (Return 0))"

definition resumed_after_drop :: "event list" where
  "resumed_after_drop =
     [Step 1, Step 1, Step 1, Step 1, Step 1, Step 1, Step 1,
      Step 0, Step 0, Step 0, Step 0, Step 0]"

definition one_submission :: body where
  "one_submission = Call (async_add 3 4) (\<lambda>c. Get_result c (\<lambda>r. Destroy c (Return r)))"

definition abandoned_item :: "event list" where
  "abandoned_item =
     [Step 0, Step 0,
      Step 8, Step 8, Step 8, Step 8, Step 8, Step 8, Step 8, Step 8,
      Request_stop 0,
      Step 0]"

definition item_queued :: sys where
  "item_queued =
     run [Step 0, Step 0, Step 8, Step 8, Step 8, Step 8, Step 8, Step 8, Step 0, Step 0]
       (init DEFAULT_CONCURRENCY_LEVEL [fire_and_forget])"

text \<open>
  Replaying a trace on the result slots, all empty at first: a write must find its slot
  empty, a retrieval must yield what its slot holds, and a coroutine must have written its
  slot when it completes. The result is the slots after the trace, if the trace passes.
\<close>

fun deliver :: "(addr \<Rightarrow> outcome option) \<Rightarrow> obs list \<Rightarrow> (addr \<Rightarrow> outcome option) option" where
  "deliver m [] = Some m"
| "deliver m (Wrote a r # tr) = (if m a = None then deliver (m(a \<mapsto> r)) tr else None)"
| "deliver m (Got t a r # tr) = (if m a = Some r then deliver m tr else None)"
| "deliver m (Completed t a # tr) = (if m a \<noteq> None then deliver m tr else None)"
| "deliver m (e # tr) = deliver m tr"

definition cell_slot :: "sys \<Rightarrow> (addr \<Rightarrow> outcome option) \<Rightarrow> addr \<Rightarrow> bool" where
  "cell_slot s m a =
     ((fresh s \<le> a \<longrightarrow> m a = None)
    \<and> (\<forall>st. heap s a = Some st \<longrightarrow>
          result st = m a
        \<and> (\<forall>b. handle st = Some (Suspended b) \<longrightarrow> result st = None)
        \<and> (handle st = None \<longrightarrow> result st \<noteq> None)))"

definition slot_at :: "sys \<Rightarrow> tid \<Rightarrow> bool" where
  "slot_at s u =
     (u < length (threads s) \<longrightarrow>
        (\<forall>a c L st. threads s ! u = Code (Coroutine a) c L \<and> heap s a = Some st \<longrightarrow> result st = None)
      \<and> (\<forall>a L st. threads s ! u = Final_suspend a L \<and> heap s a = Some st \<longrightarrow> result st \<noteq> None))"

definition slot_ok :: "sys \<Rightarrow> bool" where
  "slot_ok s =
     ((\<exists>m. deliver (\<lambda>a. None) (trace s) = Some m \<and> (\<forall>a. cell_slot s m a)) \<and> (\<forall>u. slot_at s u))"

definition waiting_caller :: sys where
  "waiting_caller = run [Step 1, Step 1, Step 1, Step 1, Step 1, Step 1] (init 1 [one_submission])"

definition served_caller :: sys where
  "served_caller =
     run [Step 1, Step 1, Step 1, Step 1, Step 1, Step 1,
          Step 0, Step 0, Step 0, Step 0, Step 0, Step 0]
       (init 1 [one_submission])"

definition failing_task :: body where
  "failing_task = Call (Throw (User_exception 1)) (\<lambda>c. Get_result c (\<lambda>r. Destroy c (Return r)))"

definition failure_raised :: sys where
  "failure_raised =
     run [Step 1, Step 1, Step 1, Step 1, Step 1, Step 1,
          Step 0, Step 0, Step 0, Step 0, Step 0]
       (init 1 [failing_task])"

text \<open>The addresses pushed to the queue, resumed and completed in a trace, in order.\<close>

fun pushed :: "obs list \<Rightarrow> addr list" where
  "pushed [] = []"
| "pushed (Pushed t a # tr) = a # pushed tr"
| "pushed (e # tr) = pushed tr"

fun resumed :: "obs list \<Rightarrow> addr list" where
  "resumed [] = []"
| "resumed (Resumed t a # tr) = a # resumed tr"
| "resumed (e # tr) = resumed tr"

fun completed :: "obs list \<Rightarrow> addr list" where
  "completed [] = []"
| "completed (Completed t a # tr) = a # completed tr"
| "completed (e # tr) = completed tr"

text \<open>
  Handing tasks over to the pool: replaying the trace with the list \<open>P\<close> of the addresses
  pushed so far, no address is pushed twice, and a resumption is made by one of the \<open>n\<close>
  workers, of an address that has been pushed.
\<close>

fun handover :: "nat \<Rightarrow> addr list \<Rightarrow> obs list \<Rightarrow> bool" where
  "handover n P [] = True"
| "handover n P (Pushed t a # tr) = (a \<notin> set P \<and> handover n (a # P) tr)"
| "handover n P (Resumed t a # tr) = (t < n \<and> a \<in> set P \<and> handover n P tr)"
| "handover n P (e # tr) = handover n P tr"

text \<open>
  Resuming: replaying the trace with the list \<open>R\<close> of the addresses resumed so far, no
  address is resumed twice, and a completion is of an address that has been resumed; so
  nothing is resumed after it has completed.
\<close>

fun resume_once :: "addr list \<Rightarrow> obs list \<Rightarrow> bool" where
  "resume_once R [] = True"
| "resume_once R (Resumed t a # tr) = (a \<notin> set R \<and> resume_once (a # R) tr)"
| "resume_once R (Completed t a # tr) = (a \<in> set R \<and> resume_once R tr)"
| "resume_once R (e # tr) = resume_once R tr"

fun creating :: "addr \<Rightarrow> pc \<Rightarrow> nat" where
  "creating a (Code cx (Await_suspend x c) L) = (if x = a then 1 else 0)"
| "creating a (Code cx (Lock_guard x c) L) = (if x = a then 1 else 0)"
| "creating a (Code cx (Push x c) L) = (if x = a then 1 else 0)"
| "creating a _ = 0"

fun is_pool_pc :: "pc \<Rightarrow> bool" where
  "is_pool_pc (Code cx c L) = (cx \<noteq> Plain)"
| "is_pool_pc Returned = False"
| "is_pool_pc _ = True"

definition hist_cell :: "sys \<Rightarrow> addr \<Rightarrow> bool" where
  "hist_cell s a =
     ((count_list (pushed (trace s)) a + total (creating a) (threads s) = (if a < fresh s then 1 else 0))
    \<and> (a \<in> set (resumed (trace s)) \<longrightarrow>
          a < fresh s \<and> a \<in> set (pushed (trace s))
        \<and> (\<forall>st b. heap s a = Some st \<longrightarrow> handle st \<noteq> Some (Suspended b)))
    \<and> (a \<in> set (completed (trace s)) \<longrightarrow>
          a \<in> set (resumed (trace s)) \<and> (\<forall>st. heap s a = Some st \<longrightarrow> handle st = None)))"

definition hist_at :: "nat \<Rightarrow> sys \<Rightarrow> tid \<Rightarrow> bool" where
  "hist_at n s u =
     (u < length (threads s) \<longrightarrow>
        is_pool_pc (threads s ! u) = (u < n)
      \<and> (\<forall>a. 0 < running a (threads s ! u) \<longrightarrow> a \<in> set (resumed (trace s))))"

definition hist_ok :: "nat \<Rightarrow> sys \<Rightarrow> bool" where
  "hist_ok n s =
     ((\<forall>a. hist_cell s a) \<and> (\<forall>u. hist_at n s u)
    \<and> handover n [] (trace s) \<and> resume_once [] (trace s))"

definition task_completed :: sys where
  "task_completed =
     run [Step 1, Step 1, Step 1, Step 1, Step 1, Step 1,
          Step 0, Step 0, Step 0, Step 0, Step 0, Step 0, Step 0]
       (init 1 [one_submission])"

definition before_creation :: sys where
  "before_creation = init 1 [one_submission]"

text \<open>
  First in, first out, one at a time: replaying the trace with the line \<open>w\<close> of the items
  pushed and not yet resumed and the item \<open>cur\<close> in execution, a resumption takes the
  head of the line while no item is in execution, and a completion is of the item in
  execution.
\<close>

fun fifo :: "addr list \<Rightarrow> addr option \<Rightarrow> obs list \<Rightarrow> bool" where
  "fifo w cur [] = True"
| "fifo w cur (Pushed t a # tr) = fifo (w @ [a]) cur tr"
| "fifo w cur (Resumed t a # tr) =
     (case w of [] \<Rightarrow> False | b # w' \<Rightarrow> b = a \<and> cur = None \<and> fifo w' (Some a) tr)"
| "fifo w cur (Completed t a # tr) = (cur = Some a \<and> fifo w None tr)"
| "fifo w cur (e # tr) = fifo w cur tr"

fun line :: "addr list \<Rightarrow> obs list \<Rightarrow> addr list" where
  "line w [] = w"
| "line w (Pushed t a # tr) = line (w @ [a]) tr"
| "line w (Resumed t a # tr) = line (tl w) tr"
| "line w (e # tr) = line w tr"

fun in_service :: "addr option \<Rightarrow> obs list \<Rightarrow> addr option" where
  "in_service cur [] = cur"
| "in_service cur (Resumed t a # tr) = in_service (Some a) tr"
| "in_service cur (Completed t a # tr) = in_service None tr"
| "in_service cur (e # tr) = in_service cur tr"

fun held :: "pc \<Rightarrow> addr list" where
  "held (Release a) = [a]"
| "held (Execute a) = [a]"
| "held _ = []"

fun current :: "pc \<Rightarrow> addr option" where
  "current (Code cx c L) = (case cx of Coroutine a \<Rightarrow> Some a | Plain \<Rightarrow> None)"
| "current (Final_suspend a L) = Some a"
| "current _ = None"

definition fifo_ok :: "sys \<Rightarrow> bool" where
  "fifo_ok s =
     (0 < length (threads s)
    \<and> fifo [] None (trace s)
    \<and> line [] (trace s) = held (threads s ! 0) @ queue s
    \<and> in_service None (trace s) = current (threads s ! 0))"

definition two_in_line :: sys where
  "two_in_line =
     run [Step 1, Step 1, Step 1, Step 1, Step 1, Step 1,
          Step 2, Step 2, Step 2, Step 2, Step 2, Step 2,
          Step 0, Step 0, Step 0, Step 0, Step 0, Step 0, Step 0, Step 0,
          Step 0, Step 0, Step 0, Step 0, Step 0]
       (init 1 [one_submission, one_submission])"

text \<open>The outcomes written to the slot of \<open>a\<close> in a trace, in order.\<close>

fun writes :: "addr \<Rightarrow> obs list \<Rightarrow> outcome list" where
  "writes a [] = []"
| "writes a (Wrote x r # tr) = (if x = a then r # writes a tr else writes a tr)"
| "writes a (e # tr) = writes a tr"

text \<open>
  One worker and one caller: the worker waits on the empty queue, the caller submits
  \<open>async_add(3, 4)\<close> and goes on to \<open>get_result\<close>, stop is requested, and the worker wakes
  and leaves its loop.
\<close>

definition starved :: sys where
  "starved =
     run [Step 0, Step 0,
          Step 1, Step 1, Step 1, Step 1, Step 1, Step 1,
          Request_stop 0,
          Step 0, Step 0]
       (init 1 [one_submission])"

definition about_to_return :: sys where
  "about_to_return =
     run [Step 1, Step 1, Step 1, Step 1, Step 1, Step 1,
          Step 0, Step 0, Step 0, Step 0, Step 0]
       (init 1 [one_submission])"

definition failure_stored :: sys where
  "failure_stored =
     run [Step 1, Step 1, Step 1, Step 1, Step 1, Step 1,
          Step 0, Step 0, Step 0, Step 0, Step 0, Step 0]
       (init 1 [failing_task])"

definition retrieved :: sys where
  "retrieved =
     run [Step 1, Step 1, Step 1, Step 1, Step 1, Step 1,
          Step 0, Step 0, Step 0, Step 0, Step 0, Step 0, Step 0,
          Step 1]
       (init 1 [one_submission])"

section \<open>What the demonstration prints\<close>

text \<open>The lines printed in a trace, in order. The \<open>[debug]\<close> lines that the coroutine bodies
  write to \<open>cout\<close> are not part of the model.\<close>

fun printed :: "obs list \<Rightarrow> (int \<times> int) list" where
  "printed [] = []"
| "printed (Printed i v # tr) = (i, v) # printed tr"
| "printed (e # tr) = printed tr"

text \<open>
  The model computes with unbounded integers where the code has \<open>int\<close>. An outcome fits
  when it is no value, or a value of \<open>int\<close> (32 bits).
\<close>

definition fits :: "outcome \<Rightarrow> bool" where
  "fits r = (case r of Value v \<Rightarrow> - (2 ^ 31) \<le> v \<and> v < 2 ^ 31 | Failure e \<Rightarrow> True)"

text \<open>
  What user code does whatever the interleaving: \<open>runs E b outs r\<close> says that \<open>b\<close>, given
  the outcomes \<open>E\<close> of the tasks it holds handles to, prints \<open>outs\<close> and ends with \<open>r\<close>
  (a value returned, or an exception that leaves it), and that each task it creates
  prints nothing and ends with an outcome that fits, which \<open>E\<close> records for it from
  then on.
\<close>

inductive runs :: "(addr \<Rightarrow> outcome option) \<Rightarrow> body \<Rightarrow> (int \<times> int) list \<Rightarrow> outcome \<Rightarrow> bool" where
  Return: "runs E (Return v) [] (Value v)"
| Throw: "runs E (Throw e) [] (Failure e)"
| Call: "runs E b [] r' \<Longrightarrow> fits r' \<Longrightarrow>
           (\<And>a. E a = None \<Longrightarrow> runs (E(a \<mapsto> r')) (k a) outs r) \<Longrightarrow>
           runs E (Call b k) outs r"
| Get_value: "E x = Some (Value v) \<Longrightarrow> runs E (k v) outs r \<Longrightarrow> runs E (Get_result x k) outs r"
| Get_failure: "E x = Some (Failure e) \<Longrightarrow> runs E (Get_result x k) [] (Failure e)"
| Destroy: "runs E c outs r \<Longrightarrow> runs E (Destroy x c) outs r"
| Printf: "runs E c outs r \<Longrightarrow> runs E (Printf i v c) ((i, v) # outs) r"

text \<open>The user code that a thread inside \<open>schedule\<close> goes back to.\<close>

fun code_of :: "act \<Rightarrow> body" where
  "code_of (Run b) = b"
| "code_of (Await_suspend a c) = c"
| "code_of (Lock_guard a c) = c"
| "code_of (Push a c) = c"
| "code_of (Unlock_guard c) = c"
| "code_of (Notify_one c) = c"

text \<open>
  The invariant of a run with one caller, for some record \<open>E\<close> of the outcomes of the tasks
  created so far: the outcomes recorded fit, a coroutine ends with the outcome recorded
  for its task, a result slot is empty or holds the recorded outcome, and what the caller has printed, followed by
  what it will print, is \<open>outs\<close>.
\<close>

definition expects ::
  "(addr \<Rightarrow> outcome option) \<Rightarrow> (int \<times> int) list \<Rightarrow> (int \<times> int) list \<Rightarrow> role \<Rightarrow> body \<Rightarrow> bool" where
  "expects E outs pr cx b =
     (case cx of
        Coroutine a \<Rightarrow> (\<exists>r. E a = Some r \<and> runs E b [] r)
      | Plain \<Rightarrow> (\<exists>outs' r. runs E b outs' r \<and> pr @ outs' = outs))"

fun good_pc :: "(addr \<Rightarrow> outcome option) \<Rightarrow> (int \<times> int) list \<Rightarrow> (int \<times> int) list \<Rightarrow> pc \<Rightarrow> bool" where
  "good_pc E outs pr (Code cx c L) = expects E outs pr cx (code_of c)"
| "good_pc E outs pr Returned = (pr = outs)"
| "good_pc E outs pr p = True"

definition good_cell :: "(addr \<Rightarrow> outcome option) \<Rightarrow> sys \<Rightarrow> addr \<Rightarrow> bool" where
  "good_cell E s a =
     ((fresh s \<le> a \<longrightarrow> E a = None)
    \<and> (\<forall>r. E a = Some r \<longrightarrow> fits r)
    \<and> (\<forall>st. heap s a = Some st \<longrightarrow>
          (\<exists>r. E a = Some r \<and> (result st = None \<or> result st = Some r)
              \<and> (\<forall>b. handle st = Some (Suspended b) \<longrightarrow> runs E b [] r))))"

definition good_with :: "(addr \<Rightarrow> outcome option) \<Rightarrow> (int \<times> int) list \<Rightarrow> sys \<Rightarrow> bool" where
  "good_with E outs s =
     ((\<forall>a. good_cell E s a)
    \<and> (\<forall>t. t < length (threads s) \<longrightarrow> good_pc E outs (printed (trace s)) (threads s ! t)))"

definition good :: "nat \<Rightarrow> (int \<times> int) list \<Rightarrow> sys \<Rightarrow> bool" where
  "good n outs s = (length (threads s) = Suc n \<and> (\<exists>E. good_with E outs s))"

text \<open>
  The loop of \<open>async_fib\<close> with each \<open>async_add(a, b)\<close> and \<open>get_result\<close> replaced by the sum:
  the value that \<open>async_fib n\<close> returns, and the lines that \<open>test_async_fib\<close> prints from
  \<open>i\<close> on.
\<close>

function fib_iter :: "int \<Rightarrow> int \<Rightarrow> int \<Rightarrow> int \<Rightarrow> int" where
  "fib_iter n i a b = (if i < n - 2 then fib_iter n (i + 1) b (a + b) else b)"
  by pat_completeness auto
termination
  by (relation "measure (\<lambda>(n, i, a, b). nat (n - 2 - i))") auto

declare fib_iter.simps [simp del]

definition fib_value :: "int \<Rightarrow> int" where
  "fib_value n = (if n \<le> 2 then 1 else fib_iter n 0 1 1)"

function report :: "int \<Rightarrow> (int \<times> int) list" where
  "report i = (if i < 10 then (i, fib_value i) # report (i + 1) else [])"
  by pat_completeness auto
termination
  by (relation "measure (\<lambda>i. nat (10 - i))") auto

declare report.simps [simp del]

text \<open>
  A caller for the first half of the example, which the source does not have: it creates
  \<open>async_add(3, 4)\<close>, retrieves the result twice and prints the two values retrieved.
\<close>

definition test_async_add :: body where
  "test_async_add =
     Call (async_add 3 4) (\<lambda>c. Get_result c (\<lambda>x. Get_result c (\<lambda>y. Printf x y (Destroy c (Return 0)))))"

text \<open>
  Schedules under the default pool, where the caller is thread 8. \<open>submit t\<close>: thread \<open>t\<close>
  creates a task and goes through \<open>schedule\<close>; \<open>pick_up t\<close>: worker \<open>t\<close> takes the item and
  resumes it. In \<open>add_served\<close> the coroutine on worker 0 creates an add task, worker 1 runs
  it to its end and worker 0 retrieves the sum; in \<open>fib_served m\<close> the caller creates a
  Fibonacci task, worker 0 runs it through \<open>m\<close> additions, and the caller retrieves and
  prints its result.
\<close>

definition submit :: "tid \<Rightarrow> event list" where
  "submit t = [Step t, Step t, Step t, Step t, Step t, Step t]"

definition pick_up :: "tid \<Rightarrow> event list" where
  "pick_up t = [Step t, Step t, Step t, Step t, Step t]"

definition add_served :: "event list" where
  "add_served = submit 0 @ pick_up 1 @ [Step 1, Step 1, Step 1] @ [Step 0, Step 0]"

definition fib_served :: "nat \<Rightarrow> event list" where
  "fib_served m =
     submit 8 @ pick_up 0 @ concat (replicate m add_served) @ [Step 0, Step 0, Step 0]
     @ [Step 8, Step 8, Step 8]"

definition complete_run :: "event list" where
  "complete_run = concat (map fib_served [0, 0, 1, 2, 3, 4, 5, 6, 7]) @ [Step 8]"

definition add_run :: "event list" where
  "add_run = submit 8 @ pick_up 0 @ [Step 0, Step 0, Step 0] @ [Step 8, Step 8, Step 8, Step 8, Step 8]"

text \<open>The state between two rounds of \<open>test_async_fib\<close>: every worker about to lock the
  mutex, no task alive, the caller about to test \<open>i < 10\<close>.\<close>

definition at_rest :: "addr \<Rightarrow> int \<Rightarrow> obs list \<Rightarrow> sys" where
  "at_rest f i tr =
     \<lparr>threads = replicate 8 Acquire @ [Code Plain (Run (test_loop i)) []],
      stop_requested = (\<lambda>t. False),
      mutex = None,
      queue = [],
      heap = (\<lambda>a. None),
      fresh = f,
      fault = None,
      trace = tr\<rparr>"

section \<open>The steps of a thread, case by case\<close>

lemma release_simps [simp]:
  "threads (release a s) = threads s" "mutex (release a s) = mutex s"
  "queue (release a s) = queue s" "fault (release a s) = fault s"
  "trace (release a s) = trace s" "stop_requested (release a s) = stop_requested s"
  "fresh (release a s) = fresh s"
  by (auto simp: release_def split: option.splits)

lemma emit_simps [simp]:
  "threads (emit e s) = threads s" "mutex (emit e s) = mutex s"
  "queue (emit e s) = queue s" "fault (emit e s) = fault s"
  "trace (emit e s) = trace s @ [e]" "stop_requested (emit e s) = stop_requested s"
  "fresh (emit e s) = fresh s" "heap (emit e s) = heap s"
  by (auto simp: emit_def)

lemma abort_simps [simp]:
  "threads (abort f s) = threads s" "mutex (abort f s) = mutex s"
  "queue (abort f s) = queue s" "fault (abort f s) = Some f"
  "trace (abort f s) = trace s" "stop_requested (abort f s) = stop_requested s"
  "fresh (abort f s) = fresh s" "heap (abort f s) = heap s"
  by (auto simp: abort_def)

lemma thread_step_enabled:
  "thread_step t s = Some s' \<Longrightarrow> fault s = None \<and> t < length (threads s)"
  by (auto simp: thread_step_def split: if_splits)

lemma thread_step_local:
  "thread_step t s = Some s' \<Longrightarrow>
     \<exists>p s0. local_step t (threads s ! t) s = Some (p, s0) \<and> s' = s0\<lparr>threads := (threads s)[t := p]\<rparr>"
  by (auto simp: thread_step_def split: if_splits option.splits)

lemma abort_same:
  assumes "threads s ! t = p" and "s' = (abort f s)\<lparr>threads := (threads s)[t := p]\<rparr>"
  shows "s' = s\<lparr>fault := Some f\<rparr>"
proof -
  from assms(1) have "(threads s)[t := p] = threads s" by (metis list_update_id)
  with assms(2) show ?thesis by (simp add: abort_def)
qed

lemma worker_stepE [consumes 2, case_names acquire wait_stop wait_block nonempty wake exit continue
    take_empty take release execute_fault execute end_iteration]:
  assumes "run_thread t (threads s ! t) s = Some (p', s0)" and "s' = s0\<lparr>threads := (threads s)[t := p']\<rparr>"
  obtains
    (acquire) "threads s ! t = Acquire" "mutex s = None"
      "s' = s\<lparr>mutex := Some t, threads := (threads s)[t := Test_empty]\<rparr>"
  | (wait_stop) "threads s ! t = Test_empty" "queue s = []" "stop_requested s t"
      "s' = s\<lparr>threads := (threads s)[t := Test_stop]\<rparr>"
  | (wait_block) "threads s ! t = Test_empty" "queue s = []" "\<not> stop_requested s t"
      "s' = s\<lparr>mutex := None, threads := (threads s)[t := Cv_wait]\<rparr>"
  | (nonempty) "threads s ! t = Test_empty" "queue s \<noteq> []"
      "s' = s\<lparr>threads := (threads s)[t := Take]\<rparr>"
  | (wake) "threads s ! t = Cv_wait" "mutex s = None" "stop_requested s t \<or> queue s \<noteq> []"
      "s' = s\<lparr>mutex := Some t, threads := (threads s)[t := Test_stop]\<rparr>"
  | (exit) "threads s ! t = Test_stop" "stop_requested s t"
      "s' = s\<lparr>mutex := None, trace := trace s @ [Left t], threads := (threads s)[t := Exited]\<rparr>"
  | (continue) "threads s ! t = Test_stop" "\<not> stop_requested s t"
      "s' = s\<lparr>threads := (threads s)[t := Take]\<rparr>"
  | (take_empty) "threads s ! t = Take" "queue s = []"
      "s' = s\<lparr>fault := Some Front_of_empty_queue\<rparr>"
  | (take) a q where "threads s ! t = Take" "queue s = a # q"
      "s' = s\<lparr>queue := q, threads := (threads s)[t := Release a]\<rparr>"
  | (release) a where "threads s ! t = Release a"
      "s' = s\<lparr>mutex := None, threads := (threads s)[t := Execute a]\<rparr>"
  | (execute_fault) a f where "threads s ! t = Execute a" "execute a s = Inl f"
      "s' = s\<lparr>fault := Some f\<rparr>"
  | (execute) a st b where "threads s ! t = Execute a" "heap s a = Some st" "handle st = Some (Suspended b)"
      "s' = s\<lparr>heap := (heap s)(a \<mapsto> st\<lparr>handle := Some Active\<rparr>), trace := trace s @ [Resumed t a],
               threads := (threads s)[t := Code (Coroutine a) (Run b) []]\<rparr>"
  | (end_iteration) a where "threads s ! t = End_iteration a"
      "s' = (release a s)\<lparr>threads := (threads s)[t := Acquire]\<rparr>"
proof (cases "threads s ! t")
  case Acquire
  with assms acquire show ?thesis by (auto split: if_splits)
next
  case Test_empty
  with assms wait_stop wait_block nonempty show ?thesis by (auto split: if_splits)
next
  case Cv_wait
  with assms wake show ?thesis by (auto split: if_splits)
next
  case Test_stop
  with assms exit continue show ?thesis by (auto simp: emit_def split: if_splits)
next
  case Take
  show ?thesis
  proof (cases "queue s")
    case Nil
    with Take assms have "s' = (abort Front_of_empty_queue s)\<lparr>threads := (threads s)[t := Take]\<rparr>"
      by auto
    from abort_same[OF Take this] Take Nil take_empty show ?thesis by blast
  next
    case (Cons a q)
    with Take assms take show ?thesis by auto
  qed
next
  case (Release a)
  with assms release show ?thesis by auto
next
  case (Execute a)
  show ?thesis
  proof (cases "execute a s")
    case (Inl f)
    with Execute assms have "s' = (abort f s)\<lparr>threads := (threads s)[t := Execute a]\<rparr>"
      by auto
    from abort_same[OF Execute this] Execute Inl execute_fault show ?thesis by blast
  next
    case (Inr r)
    with assms Execute execute show ?thesis
      by (auto simp: execute_def emit_def split: option.splits coroutine.splits)
  qed
next
  case (End_iteration a)
  with assms end_iteration show ?thesis by auto
qed (use assms in auto)

lemma code_stepE [consumes 3, case_names call await_fault await lock push unlock notify
    get_dangling get_value get_failure destroy destroy_skip printf unwind unhandled_fault
    unhandled terminate return_fault return_refused return plain_unwind plain_return]:
  assumes "code t cx c L s = Some (p', s0)" and "s' = s0\<lparr>threads := (threads s)[t := p']\<rparr>"
    and pc: "threads s ! t = Code cx c L"
  obtains
    (call) b k where "c = Run (Call b k)"
      "s' = s\<lparr>heap := (heap s)(fresh s \<mapsto> \<lparr>use_count = 1, handle = Some (Suspended b), result = None\<rparr>),
               fresh := Suc (fresh s),
               threads := (threads s)[t := Code cx (Await_suspend (fresh s) (k (fresh s))) (fresh s # L)]\<rparr>"
  | (await_fault) a c' where "c = Await_suspend a c'" "heap s a = None"
      "s' = s\<lparr>fault := Some Assertion_failed\<rparr>"
  | (await) a c' st where "c = Await_suspend a c'" "heap s a = Some st"
      "s' = s\<lparr>heap := (heap s)(a \<mapsto> st\<lparr>use_count := Suc (use_count st)\<rparr>),
               threads := (threads s)[t := Code cx (Lock_guard a c') L]\<rparr>"
  | (lock) a c' where "c = Lock_guard a c'" "mutex s = None"
      "s' = s\<lparr>mutex := Some t, threads := (threads s)[t := Code cx (Push a c') L]\<rparr>"
  | (push) a c' where "c = Push a c'"
      "s' = s\<lparr>queue := queue s @ [a], trace := trace s @ [Pushed t a],
               threads := (threads s)[t := Code cx (Unlock_guard c') L]\<rparr>"
  | (unlock) c' where "c = Unlock_guard c'"
      "s' = s\<lparr>mutex := None, threads := (threads s)[t := Code cx (Notify_one c') L]\<rparr>"
  | (notify) c' where "c = Notify_one c'"
      "s' = s\<lparr>trace := trace s @ [Notified t], threads := (threads s)[t := Code cx (Run c') L]\<rparr>"
  | (get_dangling) x k where "c = Run (Get_result x k)" "heap s x = None"
      "s' = s\<lparr>fault := Some Dangling_task\<rparr>"
  | (get_value) x k st v where "c = Run (Get_result x k)" "heap s x = Some st" "result st = Some (Value v)"
      "s' = s\<lparr>trace := trace s @ [Got t x (Value v)], threads := (threads s)[t := Code cx (Run (k v)) L]\<rparr>"
  | (get_failure) x k st e where "c = Run (Get_result x k)" "heap s x = Some st" "result st = Some (Failure e)"
      "s' = s\<lparr>trace := trace s @ [Got t x (Failure e)], threads := (threads s)[t := Code cx (Run (Throw e)) L]\<rparr>"
  | (destroy) x c' where "c = Run (Destroy x c')" "x \<in> set L"
      "s' = (release x s)\<lparr>threads := (threads s)[t := Code cx (Run c') (remove1 x L)]\<rparr>"
  | (destroy_skip) x c' where "c = Run (Destroy x c')" "x \<notin> set L"
      "s' = s\<lparr>threads := (threads s)[t := Code cx (Run c') L]\<rparr>"
  | (printf) i v c' where "c = Run (Printf i v c')"
      "s' = s\<lparr>trace := trace s @ [Printed i v], threads := (threads s)[t := Code cx (Run c') L]\<rparr>"
  | (unwind) e x L' where "c = Run (Throw e)" "L = x # L'"
      "s' = (release x s)\<lparr>threads := (threads s)[t := Code cx (Run (Throw e)) L']\<rparr>"
  | (unhandled_fault) a e f where "cx = Coroutine a" "c = Run (Throw e)" "L = []"
      "unhandled_exception a e s = Inl f"
      "s' = s\<lparr>fault := Some f\<rparr>"
  | (unhandled) a e st where "cx = Coroutine a" "c = Run (Throw e)" "L = []"
      "heap s a = Some st" "result st = None"
      "s' = s\<lparr>heap := (heap s)(a \<mapsto> st\<lparr>result := Some (Failure e)\<rparr>), trace := trace s @ [Wrote a (Failure e)],
               threads := (threads s)[t := Final_suspend a []]\<rparr>"
  | (terminate) e where "cx = Plain" "c = Run (Throw e)" "L = []"
      "s' = s\<lparr>fault := Some Terminate_called\<rparr>"
  | (return_fault) a v where "cx = Coroutine a" "c = Run (Return v)" "heap s a = None"
      "s' = s\<lparr>fault := Some Assertion_failed\<rparr>"
  | (return_refused) a v st r where "cx = Coroutine a" "c = Run (Return v)" "heap s a = Some st"
      "result st = Some r"
      "s' = s\<lparr>threads := (threads s)[t := Code cx (Run (Throw Promise_already_satisfied)) L]\<rparr>"
  | (return) a v st where "cx = Coroutine a" "c = Run (Return v)" "heap s a = Some st"
      "result st = None"
      "s' = s\<lparr>heap := (heap s)(a \<mapsto> st\<lparr>result := Some (Value v)\<rparr>), trace := trace s @ [Wrote a (Value v)],
               threads := (threads s)[t := Final_suspend a L]\<rparr>"
  | (plain_unwind) v x L' where "cx = Plain" "c = Run (Return v)" "L = x # L'"
      "s' = (release x s)\<lparr>threads := (threads s)[t := Code cx c L']\<rparr>"
  | (plain_return) v where "cx = Plain" "c = Run (Return v)" "L = []"
      "s' = s\<lparr>threads := (threads s)[t := Returned]\<rparr>"
proof (cases "(t, cx, c, L, s)" rule: code.cases)
  case (1 t cx b k L s)
  with assms call show ?thesis by (auto simp: get_return_object_def)
next
  case (2 t' cx' a c' L' s'')
  show ?thesis
  proof (cases "heap s a")
    case None
    with 2 assms have "s' = (abort Assertion_failed s)\<lparr>threads := (threads s)[t := Code cx c L]\<rparr>"
      by (auto simp: await_suspend_def get_state_def)
    from abort_same[OF pc this] 2 None await_fault show ?thesis by blast
  next
    case (Some st)
    with 2 assms await show ?thesis
      by (auto simp: await_suspend_def get_state_def)
  qed
next
  case (3 t' cx' x k L' s'')
  show ?thesis
  proof (cases "heap s x")
    case None
    with 3 assms have "s' = (abort Dangling_task s)\<lparr>threads := (threads s)[t := Code cx c L]\<rparr>"
      by auto
    from abort_same[OF pc this] 3 None get_dangling show ?thesis by blast
  next
    case (Some st)
    with 3 assms get_value get_failure show ?thesis
      by (auto simp: task_get_result_def get_result_def future_get_def emit_def
          split: option.splits outcome.splits)
  qed
next
  case (4 t cx x c L s)
  with assms destroy destroy_skip show ?thesis by (auto split: if_splits)
next
  case (5 t cx i v c L s)
  with assms printf show ?thesis by (auto simp: emit_def)
next
  case (6 t cx e x L s)
  with assms unwind show ?thesis by auto
next
  case (7 t' a e s'')
  show ?thesis
  proof (cases "unhandled_exception a e s")
    case (Inl f)
    with 7 assms have "s' = (abort f s)\<lparr>threads := (threads s)[t := Code cx c L]\<rparr>"
      by auto
    from abort_same[OF pc this] 7 Inl unhandled_fault show ?thesis by blast
  next
    case (Inr r)
    with 7 assms unhandled show ?thesis
      by (auto simp: unhandled_exception_def get_state_def set_exception_def emit_def
          split: option.splits)
  qed
next
  case (8 t' e s'')
  with assms have "s' = (abort Terminate_called s)\<lparr>threads := (threads s)[t := Code cx c L]\<rparr>"
    by auto
  from abort_same[OF pc this] 8 terminate show ?thesis by blast
next
  case (9 t' a v L' s'')
  show ?thesis
  proof (cases "heap s a")
    case None
    with 9 assms have "s' = (abort Assertion_failed s)\<lparr>threads := (threads s)[t := Code cx c L]\<rparr>"
      by (auto simp: return_value_def get_state_def)
    from abort_same[OF pc this] 9 None return_fault show ?thesis by blast
  next
    case (Some st)
    with 9 assms return_refused return show ?thesis
      by (auto simp: return_value_def get_state_def set_result_def set_value_def emit_def
          split: option.splits)
  qed
next
  case (10 t v x L s)
  with assms plain_unwind show ?thesis by auto
next
  case (11 t v s)
  with assms plain_return show ?thesis by auto
next
  case (12 t cx a c L s)
  with assms lock show ?thesis by (auto simp: in_schedule_def split: if_splits)
next
  case (13 t cx a c L s)
  with assms push show ?thesis by (auto simp: in_schedule_def emit_def)
next
  case (14 t cx c L s)
  with assms unlock show ?thesis by (auto simp: in_schedule_def)
next
  case (15 t cx c L s)
  with assms notify show ?thesis by (auto simp: in_schedule_def emit_def)
qed

lemma leave_stepE [consumes 3, case_names leave_unwind final_fault final]:
  assumes "leave t a L s = Some (p', s0)" and "s' = s0\<lparr>threads := (threads s)[t := p']\<rparr>"
    and pc: "threads s ! t = Final_suspend a L"
  obtains
    (leave_unwind) x L' where "L = x # L'"
      "s' = (release x s)\<lparr>threads := (threads s)[t := Final_suspend a L']\<rparr>"
  | (final_fault) "L = []" "heap s a = None"
      "s' = s\<lparr>fault := Some Assertion_failed\<rparr>"
  | (final) st where "L = []" "heap s a = Some st"
      "s' = s\<lparr>heap := (heap s)(a \<mapsto> st\<lparr>handle := None\<rparr>), trace := trace s @ [Completed t a],
               threads := (threads s)[t := End_iteration a]\<rparr>"
proof (cases L)
  case Nil
  show ?thesis
  proof (cases "heap s a")
    case None
    with Nil assms have "s' = (abort Assertion_failed s)\<lparr>threads := (threads s)[t := Final_suspend a L]\<rparr>"
      by (auto simp: final_suspend_def get_state_def)
    from abort_same[OF pc this] Nil None final_fault show ?thesis by blast
  next
    case (Some st)
    with Nil assms final show ?thesis
      by (auto simp: final_suspend_def get_state_def emit_def)
  qed
next
  case (Cons x L')
  with assms leave_unwind show ?thesis by auto
qed

lemma thread_step_kinds [consumes 1, case_names worker code leave]:
  assumes "thread_step t s = Some s'"
  obtains
    (worker) p' s0 where "run_thread t (threads s ! t) s = Some (p', s0)"
      "s' = s0\<lparr>threads := (threads s)[t := p']\<rparr>"
  | (code) cx c L p' s0 where "code t cx c L s = Some (p', s0)"
      "s' = s0\<lparr>threads := (threads s)[t := p']\<rparr>" "threads s ! t = Code cx c L"
  | (leave) a L p' s0 where "leave t a L s = Some (p', s0)"
      "s' = s0\<lparr>threads := (threads s)[t := p']\<rparr>" "threads s ! t = Final_suspend a L"
proof -
  from thread_step_local[OF assms] obtain p s0 where
    ls: "local_step t (threads s ! t) s = Some (p, s0)" and s': "s' = s0\<lparr>threads := (threads s)[t := p]\<rparr>"
    by blast
  show thesis
  proof (cases "threads s ! t")
    case (Code cx c L)
    with ls s' code show ?thesis by (simp add: local_step_def)
  next
    case (Final_suspend a L)
    with ls s' leave show ?thesis by (simp add: local_step_def)
  qed (use ls s' worker in \<open>simp_all add: local_step_def\<close>)
qed

lemma total_split: "t < length ts \<Longrightarrow> total f ts = others f ts t + f (ts ! t)"
proof -
  assume "t < length ts"
  then have "ts = take t ts @ ts ! t # drop (Suc t) ts" by (simp add: id_take_nth_drop)
  then have "total f ts = total f (take t ts @ ts ! t # drop (Suc t) ts)" by simp
  then show ?thesis by (simp add: total_def others_def)
qed

lemma total_update: "t < length ts \<Longrightarrow> total f (ts[t := p]) = others f ts t + f p"
  by (simp add: total_def others_def upd_conv_take_nth_drop)

lemma count_list_remove1: "x \<in> set L \<Longrightarrow> count_list (remove1 x L) a = count_list L a - (if x = a then 1 else 0)"
  by (induction L) auto

lemma count_list_pos: "x \<in> set L \<Longrightarrow> 0 < count_list L x"
  by (induction L) auto

lemma wf_update: "list_all wf_pc ts \<Longrightarrow> wf_pc p \<Longrightarrow> list_all wf_pc (ts[t := p])"
  using set_update_subset_insert[of ts t p] by (auto simp: list_all_iff)

lemma wf_nth: "list_all wf_pc ts \<Longrightarrow> t < length ts \<Longrightarrow> wf_pc (ts ! t)"
  by (simp add: list_all_length)

section \<open>Reference counts and the state of the handle\<close>

lemma cell_ok_frame:
  assumes c: "cell_ok s x" and en: "t < length (threads s)"
    and eq: "sched x p' = sched x (threads s ! t)"
     "running x p' = running x (threads s ! t)"
     "scoped x p' = scoped x (threads s ! t)"
    and h: "heap s' x = heap s x" "fresh s' = fresh s" "queue s' = queue s"
    and th: "threads s' = (threads s)[t := p']"
  shows "cell_ok s' x"
proof -
  have "pend s' x = pend s x"
    by (simp add: pend_def h th eq total_split[OF en] total_update[OF en])
  moreover have "total (running x) (threads s') = total (running x) (threads s)"
    by (simp add: th eq total_split[OF en] total_update[OF en])
  moreover have "total (scoped x) (threads s') = total (scoped x) (threads s)"
    by (simp add: th eq total_split[OF en] total_update[OF en])
  ultimately show ?thesis using c by (auto simp: cell_ok_def h split: option.splits)
qed

lemma cell_ok_fault: "cell_ok s x \<Longrightarrow> cell_ok (s\<lparr>fault := f\<rparr>) x"
  by (auto simp: cell_ok_def pend_def split: option.splits)

lemma cell_ok_stop: "cell_ok (s\<lparr>stop_requested := f\<rparr>) x = cell_ok s x"
  by (auto simp: cell_ok_def pend_def split: option.splits)

lemma heap_ok_worker:
  assumes inv: "heap_ok s" and en: "t < length (threads s)"
    and st: "run_thread t (threads s ! t) s = Some (p', s0)" "s' = s0\<lparr>threads := (threads s)[t := p']\<rparr>"
  shows "heap_ok s'"
proof -
  note sp = total_split[OF en] and up = total_update[OF en]
  from inv have c: "\<And>a. cell_ok s a" and w: "list_all wf_pc (threads s)"
    by (auto simp: heap_ok_def)
  note w' = wf_update[OF w]
  have "cell_ok s' x" for x
    using st
  proof (cases rule: worker_stepE)
    case (take a q)
    then show ?thesis using c[of x]
      by (cases "x = a") (auto simp: cell_ok_def pend_def sp up split: option.splits)
  next
    case (execute a st b)
    then show ?thesis using c[of x]
      by (cases "x = a") (auto simp: cell_ok_def pend_def sp up split: option.splits)
  next
    case (end_iteration a)
    then show ?thesis using c[of x]
      by (cases "x = a") (auto simp: cell_ok_def pend_def sp up release_def split: option.splits coroutine.splits)
  next
    case take_empty
    then show ?thesis using c[of x] by (simp add: cell_ok_fault)
  next
    case (execute_fault a f)
    then show ?thesis using c[of x] by (simp add: cell_ok_fault)
  qed (rule cell_ok_frame[OF c en]; simp)+
  moreover have "list_all wf_pc (threads s')"
    using st by (cases rule: worker_stepE) (use w w' in auto)
  ultimately show ?thesis by (simp add: heap_ok_def)
qed

lemma heap_ok_leave:
  assumes inv: "heap_ok s" and en: "t < length (threads s)"
    and st: "leave t a L s = Some (p', s0)" "s' = s0\<lparr>threads := (threads s)[t := p']\<rparr>"
    and pc: "threads s ! t = Final_suspend a L"
  shows "heap_ok s'"
proof -
  note sp = total_split[OF en] and up = total_update[OF en]
  from inv have c: "\<And>a. cell_ok s a" and w: "list_all wf_pc (threads s)"
    by (auto simp: heap_ok_def)
  note w' = wf_update[OF w]
  have "cell_ok s' x" for x
    using st pc
  proof (cases rule: leave_stepE)
    case (leave_unwind y L')
    then show ?thesis using c[of x] pc
      by (cases "x = y"; cases "x = a")
        (auto simp: cell_ok_def pend_def sp up release_def split: option.splits coroutine.splits)
  next
    case final_fault
    then show ?thesis using c[of x] by (simp add: cell_ok_fault)
  next
    case (final st)
    then show ?thesis using c[of x] pc
      by (cases "x = a") (auto simp: cell_ok_def pend_def sp up split: option.splits coroutine.splits)
  qed
  moreover have "list_all wf_pc (threads s')"
    using st pc by (cases rule: leave_stepE) (use w w' in auto)
  ultimately show ?thesis by (simp add: heap_ok_def)
qed

lemma heap_ok_code:
  assumes inv: "heap_ok s" and en: "t < length (threads s)"
    and st: "code t cx c L s = Some (p', s0)" "s' = s0\<lparr>threads := (threads s)[t := p']\<rparr>"
    and pc: "threads s ! t = Code cx c L"
  shows "heap_ok s'"
proof -
  note sp = total_split[OF en] and up = total_update[OF en]
  from inv have c: "\<And>a. cell_ok s a" and w: "list_all wf_pc (threads s)"
    by (auto simp: heap_ok_def)
  note w' = wf_update[OF w]
  from wf_nth[OF w en] pc have wt: "wf_pc (Code cx c L)" by simp
  have "cell_ok s' x" for x
    using st pc
  proof (cases rule: code_stepE)
    case (call b k)
    then show ?thesis
      using c[of x] c[of "fresh s"] pc
      by (cases "x = fresh s")
        (auto simp: cell_ok_def pend_def sp up split: option.splits coroutine.splits role.splits)
  next
    case (await a c' st)
    then show ?thesis
      using c[of x] pc wt count_list_pos[of a L]
      by (cases "x = a")
        (auto simp: cell_ok_def pend_def sp up split: option.splits coroutine.splits role.splits)
  next
    case (push a c')
    then show ?thesis
      using c[of x] pc
      by (cases "x = a")
        (auto simp: cell_ok_def pend_def sp up split: option.splits coroutine.splits role.splits)
  next
    case (destroy y c')
    then show ?thesis
      using c[of x] pc count_list_pos[of y L]
      by (cases "x = y")
        (auto simp: cell_ok_def pend_def sp up release_def count_list_remove1
          split: option.splits coroutine.splits role.splits)
  next
    case (unwind e y L')
    then show ?thesis
      using c[of x] pc
      by (cases "x = y")
        (auto simp: cell_ok_def pend_def sp up release_def
          split: option.splits coroutine.splits role.splits)
  next
    case (plain_unwind v y L')
    then show ?thesis
      using c[of x] pc
      by (cases "x = y")
        (auto simp: cell_ok_def pend_def sp up release_def
          split: option.splits coroutine.splits role.splits)
  next
    case (unhandled a e st)
    then show ?thesis
      using c[of x] pc
      by (cases "x = a")
        (auto simp: cell_ok_def pend_def sp up split: option.splits coroutine.splits)
  next
    case (return a v st)
    then show ?thesis
      using c[of x] pc
      by (cases "x = a")
        (auto simp: cell_ok_def pend_def sp up split: option.splits coroutine.splits)
  next
    case (await_fault a c')
    then show ?thesis using c[of x] by (simp add: cell_ok_fault)
  next
    case (get_dangling y k)
    then show ?thesis using c[of x] by (simp add: cell_ok_fault)
  next
    case (unhandled_fault a e f)
    then show ?thesis using c[of x] by (simp add: cell_ok_fault)
  next
    case (terminate e)
    then show ?thesis using c[of x] by (simp add: cell_ok_fault)
  next
    case (return_fault a v)
    then show ?thesis using c[of x] by (simp add: cell_ok_fault)
  qed (rule cell_ok_frame[OF c en]; simp add: pc)+
  moreover have "list_all wf_pc (threads s')"
    using st pc by (cases rule: code_stepE) (use w w' pc wt in auto)
  ultimately show ?thesis by (simp add: heap_ok_def)
qed

lemma heap_ok_thread_step:
  assumes "heap_ok s" and "thread_step t s = Some s'"
  shows "heap_ok s'"
proof -
  from thread_step_enabled[OF assms(2)] have en: "t < length (threads s)" by simp
  from assms(2) show ?thesis
  proof (cases rule: thread_step_kinds)
    case (worker p' s0)
    then show ?thesis using heap_ok_worker[OF assms(1) en] by blast
  next
    case (code cx c L p' s0)
    then show ?thesis using heap_ok_code[OF assms(1) en] by blast
  next
    case (leave a L p' s0)
    then show ?thesis using heap_ok_leave[OF assms(1) en] by blast
  qed
qed

lemma heap_ok_step: "heap_ok s \<Longrightarrow> heap_ok (step e s)"
proof (cases e)
  case (Step t)
  assume "heap_ok s"
  then show ?thesis using Step heap_ok_thread_step[of s t]
    by (cases "thread_step t s") auto
next
  case (Request_stop t)
  assume "heap_ok s"
  then show ?thesis using Request_stop
    by (simp add: heap_ok_def cell_ok_stop)
qed

lemma total_replicate_0: "f p = 0 \<Longrightarrow> total f (replicate n p) = 0"
  by (induction n) (auto simp: total_def)

lemma total_append: "total f (xs @ ys) = total f xs + total f ys"
  by (simp add: total_def)

lemma total_map_0: "(\<And>x. f (g x) = 0) \<Longrightarrow> total f (map g xs) = 0"
  by (induction xs) (auto simp: total_def)

lemma heap_ok_init: "heap_ok (init n ps)"
  by (auto simp: heap_ok_def cell_ok_def pend_def init_def total_append total_replicate_0 total_map_0
      list_all_iff)

lemma heap_ok_run: "heap_ok s \<Longrightarrow> heap_ok (run es s)"
  by (induction es arbitrary: s) (auto simp: heap_ok_step)

section \<open>Mutual exclusion and the queue\<close>

lemma pool_ok_update:
  assumes inv: "pool_ok s" and en: "t < length (threads s)"
    and mt: "(mutex s' = mutex s \<and> holds_mutex p' = holds_mutex (threads s ! t))
           \<or> (mutex s = None \<and> mutex s' = Some t \<and> holds_mutex p')
           \<or> (holds_mutex (threads s ! t) \<and> mutex s' = None \<and> \<not> holds_mutex p')"
    and qt: "queue s' = queue s \<or> (\<exists>a. queue s' = queue s @ [a]) \<or> holds_mutex (threads s ! t)"
    and tk: "p' = Take \<longrightarrow> queue s' \<noteq> []"
    and ts: "p' = Test_stop \<longrightarrow> queue s' \<noteq> [] \<or> stop_requested s t"
    and st: "stop_requested s' = stop_requested s"
    and th: "threads s' = (threads s)[t := p']"
  shows "pool_ok s'"
proof -
  from inv have m: "\<And>u. mutex_at s u" and q: "\<And>u. queue_at s u"
    by (auto simp: pool_ok_def)
  have "mutex_at s' u" for u
  proof (cases "u = t")
    case True
    with mt m[of t] en th show ?thesis by (auto simp: mutex_at_def)
  next
    case False
    with mt m[of t] m[of u] en th show ?thesis by (auto simp: mutex_at_def)
  qed
  moreover have "queue_at s' u" for u
  proof (cases "u = t")
    case True
    with tk ts en th st show ?thesis by (auto simp: queue_at_def)
  next
    case False
    with qt q[of u] m[of u] m[of t] en th st show ?thesis
      by (auto simp: queue_at_def mutex_at_def)
  qed
  ultimately show ?thesis by (simp add: pool_ok_def)
qed

lemma pool_ok_fault: "pool_ok s \<Longrightarrow> pool_ok (s\<lparr>fault := f\<rparr>)"
  by (simp add: pool_ok_def mutex_at_def queue_at_def)

lemma pool_ok_thread_step:
  assumes inv: "pool_ok s" and step: "thread_step t s = Some s'"
  shows "pool_ok s'"
proof -
  from thread_step_enabled[OF step] have en: "t < length (threads s)" by simp
  from inv have m: "mutex_at s t" and q: "queue_at s t"
    by (auto simp: pool_ok_def)
  from step show ?thesis
  proof (cases rule: thread_step_kinds)
    case (worker p' s0)
    then show ?thesis
    proof (cases rule: worker_stepE)
      case take_empty
      then show ?thesis using inv by (simp add: pool_ok_fault)
    next
      case (execute_fault a f)
      then show ?thesis using inv by (simp add: pool_ok_fault)
    next
      case continue
      then show ?thesis using q en by (intro pool_ok_update[OF inv en]) (simp_all add: queue_at_def)
    next
      case wake
      then show ?thesis by (intro pool_ok_update[OF inv en]) auto
    qed (rule pool_ok_update[OF inv en]; simp)+
  next
    case (code cx c L p' s0)
    then show ?thesis
    proof (cases rule: code_stepE)
      case (await_fault a c')
      then show ?thesis using inv by (simp add: pool_ok_fault)
    next
      case (get_dangling y k)
      then show ?thesis using inv by (simp add: pool_ok_fault)
    next
      case (unhandled_fault a e f)
      then show ?thesis using inv by (simp add: pool_ok_fault)
    next
      case (terminate e)
      then show ?thesis using inv by (simp add: pool_ok_fault)
    next
      case (return_fault a v)
      then show ?thesis using inv by (simp add: pool_ok_fault)
    qed (rule pool_ok_update[OF inv en]; simp add: code(3))+
  next
    case (leave a L p' s0)
    then show ?thesis
    proof (cases rule: leave_stepE)
      case final_fault
      then show ?thesis using inv by (simp add: pool_ok_fault)
    qed (rule pool_ok_update[OF inv en]; simp add: leave(3))+
  qed
qed

lemma pool_ok_step: "pool_ok s \<Longrightarrow> pool_ok (step e s)"
proof (cases e)
  case (Step t)
  assume "pool_ok s"
  then show ?thesis using Step pool_ok_thread_step[of s t]
    by (cases "thread_step t s") auto
next
  case (Request_stop t)
  assume "pool_ok s"
  then show ?thesis using Request_stop
    by (auto simp: pool_ok_def mutex_at_def queue_at_def)
qed

lemma pool_ok_init: "pool_ok (init n ps)"
  by (auto simp: pool_ok_def mutex_at_def queue_at_def init_def nth_append)

lemma pool_ok_run: "pool_ok s \<Longrightarrow> pool_ok (run es s)"
  by (induction es arbitrary: s) (auto simp: pool_ok_step)

section \<open>Faults that cannot happen\<close>

lemma total_nth_le: "t < length ts \<Longrightarrow> f (ts ! t) \<le> total f ts"
  by (simp add: total_split)

lemma running_alive:
  assumes "heap_ok s" and "t < length (threads s)" and "0 < running a (threads s ! t)"
  shows "\<exists>st. heap s a = Some st \<and> handle st = Some Active \<and> 0 < use_count st"
proof -
  from assms(1) have c: "cell_ok s a" by (simp add: heap_ok_def)
  from total_nth_le[OF assms(2), of "running a"] assms(3)
  have "0 < total (running a) (threads s)" by simp
  with c show ?thesis
    by (auto simp: cell_ok_def split: option.splits coroutine.splits)
qed

lemma sched_alive:
  assumes "heap_ok s" and "t < length (threads s)" and "0 < sched a (threads s ! t)"
  shows "\<exists>st b. heap s a = Some st \<and> handle st = Some (Suspended b) \<and> 0 < use_count st"
proof -
  from assms(1) have c: "cell_ok s a" by (simp add: heap_ok_def)
  from total_nth_le[OF assms(2), of "sched a"] assms(3)
  have "0 < pend s a" by (simp add: pend_def)
  with c show ?thesis
    by (auto simp: cell_ok_def split: option.splits coroutine.splits)
qed

lemma fault_ok_thread_step:
  assumes h: "heap_ok s" and p: "pool_ok s" and f: "fault_ok s" and step: "thread_step t s = Some s'"
  shows "fault_ok s'"
proof -
  from thread_step_enabled[OF step] have en: "t < length (threads s)" by simp
  from p have q: "queue_at s t" by (simp add: pool_ok_def)
  from step show ?thesis
  proof (cases rule: thread_step_kinds)
    case (worker p' s0)
    then show ?thesis
    proof (cases rule: worker_stepE)
      case take_empty
      with q en show ?thesis by (simp add: queue_at_def)
    next
      case (execute_fault a f')
      with sched_alive[OF h en, of a] show ?thesis
        by (auto simp: execute_def fault_ok_def)
    qed (use f in \<open>simp_all add: fault_ok_def\<close>)
  next
    case (code cx c L p' s0)
    then show ?thesis
    proof (cases rule: code_stepE)
      case (await_fault a c')
      with sched_alive[OF h en, of a] code(3) show ?thesis by simp
    next
      case (unhandled_fault a e f')
      with running_alive[OF h en, of a] code(3) show ?thesis
        by (auto simp: unhandled_exception_def get_state_def fault_ok_def split: option.splits sum.splits)
    next
      case (return_fault a v)
      with running_alive[OF h en, of a] code(3) show ?thesis by simp
    qed (use f in \<open>simp_all add: fault_ok_def\<close>)
  next
    case (leave a L p' s0)
    then show ?thesis
    proof (cases rule: leave_stepE)
      case final_fault
      with running_alive[OF h en, of a] leave(3) show ?thesis by simp
    qed (use f in \<open>simp_all add: fault_ok_def\<close>)
  qed
qed

lemma stable_step: "stable s \<Longrightarrow> stable (step e s)"
proof (cases e)
  case (Step t)
  assume "stable s"
  then show ?thesis
    using Step heap_ok_thread_step[of s t] pool_ok_thread_step[of s t] fault_ok_thread_step[of s t]
    by (cases "thread_step t s") (auto simp: stable_def)
next
  case (Request_stop t)
  assume "stable s"
  then show ?thesis
    using Request_stop heap_ok_step[of s e] pool_ok_step[of s e]
    by (simp add: stable_def fault_ok_def)
qed

lemma stable_init: "stable (init n ps)"
  by (simp add: stable_def heap_ok_init pool_ok_init) (simp add: fault_ok_def init_def)

lemma stable_run: "stable s \<Longrightarrow> stable (run es s)"
  by (induction es arbitrary: s) (auto simp: stable_step)

lemma stable_reach: "stable (run es (init n ps))"
  by (simp add: stable_run stable_init)

section \<open>Reachable states\<close>

lemmas exec =
  init_def thread_step_def local_step_def in_schedule_def get_return_object_def await_suspend_def get_state_def
  execute_def release_def emit_def abort_def return_value_def unhandled_exception_def
  final_suspend_def set_result_def set_value_def set_exception_def task_get_result_def
  get_result_def future_get_def async_add_def

lemma run_append: "run (es @ es') s = run es' (run es s)"
  by (induction es arbitrary: s) auto

lemma length_threads_step [simp]: "length (threads (step e s)) = length (threads s)"
proof (cases e)
  case (Step t)
  show ?thesis
  proof (cases "thread_step t s")
    case None
    with Step show ?thesis by simp
  next
    case (Some s')
    from thread_step_local[OF Some] obtain p s0 where
      ls: "local_step t (threads s ! t) s = Some (p, s0)" and s': "s' = s0\<lparr>threads := (threads s)[t := p]\<rparr>"
      by blast
    with Step Some show ?thesis by simp
  qed
next
  case (Request_stop t)
  then show ?thesis by simp
qed

lemma length_threads_run [simp]: "length (threads (run es s)) = length (threads s)"
  by (induction es arbitrary: s) auto

lemma length_threads_init [simp]: "length (threads (init n ps)) = n + length ps"
  by (simp add: init_def)

section \<open>Who changes the queue\<close>

lemma queue_change_holder:
  assumes p: "pool_ok s" and step: "thread_step u s = Some s'" and ch: "queue s' \<noteq> queue s"
  shows "mutex s = Some u"
proof -
  from thread_step_enabled[OF step] have en: "u < length (threads s)" by simp
  from p have m: "mutex_at s u" by (simp add: pool_ok_def)
  from step show ?thesis
  proof (cases rule: thread_step_kinds)
    case (worker p' s0)
    then show ?thesis
      by (cases rule: worker_stepE) (use ch m en in \<open>simp_all add: mutex_at_def\<close>)
  next
    case (code cx c L p' s0)
    then show ?thesis
      by (cases rule: code_stepE) (use ch m en code(3) in \<open>simp_all add: mutex_at_def\<close>)
  next
    case (leave a L p' s0)
    then show ?thesis
      by (cases rule: leave_stepE) (use ch m en in \<open>simp_all add: mutex_at_def\<close>)
  qed
qed

section \<open>Evaluation with the default pool\<close>

lemma replicate_8: "replicate 8 x = [x, x, x, x, x, x, x, x]"
  by (simp add: numeral_eq_Suc)

section \<open>The result slot is written once\<close>

lemma deliver_append:
  "deliver m (tr @ tr') = (case deliver m tr of None \<Rightarrow> None | Some m' \<Rightarrow> deliver m' tr')"
  by (induction m tr rule: deliver.induct) (simp_all add: fun_upd_def)

lemma heap_release:
  "heap (release x s) y = Some st' \<Longrightarrow>
     \<exists>st. heap s y = Some st \<and> result st' = result st \<and> handle st' = handle st"
  by (auto simp: release_def split: option.splits if_splits)

lemma others_nth_le:
  assumes "u < length ts" and "t < length ts" and "u \<noteq> t"
  shows "f (ts ! u) \<le> others f ts t"
proof (cases "u < t")
  case True
  then have "u < length (take t ts)" using assms by simp
  from total_nth_le[OF this, of f] True show ?thesis by (simp add: others_def)
next
  case False
  with assms have "u - Suc t < length (drop (Suc t) ts)" by auto
  from total_nth_le[OF this, of f] False assms show ?thesis by (simp add: others_def)
qed

lemma sole_runner:
  assumes h: "heap_ok s" and en: "t < length (threads s)" "u < length (threads s)"
    and r: "0 < running a (threads s ! t)" "0 < running a (threads s ! u)"
  shows "u = t"
proof (rule ccontr)
  assume ne: "u \<noteq> t"
  from h have c: "cell_ok s a" by (simp add: heap_ok_def)
  from others_nth_le[OF en(2) en(1) ne, of "running a"] r
  have "1 < total (running a) (threads s)" by (simp add: total_split[OF en(1)])
  with c show False by (auto simp: cell_ok_def split: option.splits coroutine.splits)
qed

lemma slot_ok_update:
  assumes inv: "slot_ok s" and en: "t < length (threads s)"
    and hp: "\<And>x st'. heap s' x = Some st' \<Longrightarrow>
               \<exists>st. heap s x = Some st \<and> result st' = result st
                 \<and> (handle st' = handle st \<or> handle st' = Some Active
                    \<or> handle st' = None \<and> result st \<noteq> None)"
    and fr: "fresh s' = fresh s"
    and tr: "\<exists>evs. trace s' = trace s @ evs
               \<and> (\<forall>m. (\<forall>a st. heap s a = Some st \<longrightarrow> result st = m a) \<longrightarrow> deliver m evs = Some m)"
    and c1: "\<And>a c L. p' = Code (Coroutine a) c L \<Longrightarrow>
               (\<exists>c' L'. threads s ! t = Code (Coroutine a) c' L')
             \<or> (\<exists>st b. heap s a = Some st \<and> handle st = Some (Suspended b))"
    and c2: "\<And>a L. p' = Final_suspend a L \<Longrightarrow> \<exists>L'. threads s ! t = Final_suspend a L'"
    and th: "threads s' = (threads s)[t := p']"
  shows "slot_ok s'"
proof -
  from inv obtain m where m: "deliver (\<lambda>a. None) (trace s) = Some m" and cs: "\<And>a. cell_slot s m a"
    and sa: "\<And>u. slot_at s u"
    by (auto simp: slot_ok_def)
  from cs have "\<forall>a st. heap s a = Some st \<longrightarrow> result st = m a"
    by (simp add: cell_slot_def)
  with tr m have "deliver (\<lambda>a. None) (trace s') = Some m"
    by (auto simp: deliver_append)
  moreover have "cell_slot s' m a" for a
    using cs[of a] hp[of a] fr by (fastforce simp: cell_slot_def)
  moreover have "slot_at s' u" for u
  proof (cases "u = t")
    case True
    show ?thesis unfolding slot_at_def
    proof (intro impI conjI allI)
      fix a c L st
      assume "threads s' ! u = Code (Coroutine a) c L \<and> heap s' a = Some st"
      with True th en have p: "p' = Code (Coroutine a) c L" and h: "heap s' a = Some st" by auto
      from c1[OF p] hp[OF h] sa[of t] cs[of a] en show "result st = None"
        by (fastforce simp: slot_at_def cell_slot_def)
    next
      fix a L st
      assume "threads s' ! u = Final_suspend a L \<and> heap s' a = Some st"
      with True th en have p: "p' = Final_suspend a L" and h: "heap s' a = Some st" by auto
      from c2[OF p] hp[OF h] sa[of t] en show "result st \<noteq> None"
        by (fastforce simp: slot_at_def)
    qed
  next
    case False
    show ?thesis unfolding slot_at_def
    proof (intro impI conjI allI)
      fix a c L st
      assume u: "u < length (threads s')"
        and "threads s' ! u = Code (Coroutine a) c L \<and> heap s' a = Some st"
      with False th have p: "threads s ! u = Code (Coroutine a) c L" and h: "heap s' a = Some st" by auto
      from p hp[OF h] sa[of u] u th show "result st = None"
        by (fastforce simp: slot_at_def)
    next
      fix a L st
      assume u: "u < length (threads s')"
        and "threads s' ! u = Final_suspend a L \<and> heap s' a = Some st"
      with False th have p: "threads s ! u = Final_suspend a L" and h: "heap s' a = Some st" by auto
      from p hp[OF h] sa[of u] u th show "result st \<noteq> None"
        by (fastforce simp: slot_at_def)
    qed
  qed
  ultimately show ?thesis by (auto simp: slot_ok_def)
qed

lemma slot_ok_fault: "slot_ok s \<Longrightarrow> slot_ok (s\<lparr>fault := f\<rparr>)"
  by (auto simp: slot_ok_def cell_slot_def slot_at_def)

lemma slot_ok_got:
  assumes inv: "slot_ok s" and en: "t < length (threads s)"
    and pc: "threads s ! t = Code cx c L"
    and hp: "heap s x = Some st" "result st = Some r"
    and s': "s' = s\<lparr>trace := trace s @ [Got t x r], threads := (threads s)[t := Code cx c' L]\<rparr>"
  shows "slot_ok s'"
proof (rule slot_ok_update[OF inv en])
  show "\<exists>evs. trace s' = trace s @ evs
      \<and> (\<forall>m. (\<forall>a st. heap s a = Some st \<longrightarrow> result st = m a) \<longrightarrow> deliver m evs = Some m)"
  proof (intro exI conjI allI impI)
    show "trace s' = trace s @ [Got t x r]" by (simp add: s')
  next
    fix m
    assume "\<forall>a st. heap s a = Some st \<longrightarrow> result st = m a"
    with hp have "m x = Some r" by metis
    then show "deliver m [Got t x r] = Some m" by simp
  qed
qed (use pc in \<open>auto simp: s'\<close>)

lemma slot_ok_write:
  assumes inv: "slot_ok s" and h: "heap_ok s" and en: "t < length (threads s)"
    and pc: "threads s ! t = Code (Coroutine a) c L"
    and hp: "heap s a = Some st"
    and s': "s' = s\<lparr>heap := (heap s)(a \<mapsto> st\<lparr>result := Some r\<rparr>), trace := trace s @ [Wrote a r],
                 threads := (threads s)[t := Final_suspend a L]\<rparr>"
  shows "slot_ok s'"
proof -
  from inv obtain m where m: "deliver (\<lambda>a. None) (trace s) = Some m" and cs: "\<And>a. cell_slot s m a"
    and sa: "\<And>u. slot_at s u"
    by (auto simp: slot_ok_def)
  from sa[of t] en pc hp have none: "result st = None" by (simp add: slot_at_def)
  from pc have rt: "0 < running a (threads s ! t)" by simp
  from running_alive[OF h en rt] hp have act: "handle st = Some Active" by simp
  from h hp have lt: "a < fresh s" by (auto simp: heap_ok_def cell_ok_def split: option.splits)
  from cs[of a] hp none have "m a = None" by (simp add: cell_slot_def)
  with m have "deliver (\<lambda>a. None) (trace s') = Some (m(a \<mapsto> r))"
    by (simp add: s' deliver_append)
  moreover have "cell_slot s' (m(a \<mapsto> r)) x" for x
    using cs[of x] act lt by (fastforce simp: s' cell_slot_def)
  moreover have "slot_at s' u" for u
  proof (cases "u = t")
    case True
    then show ?thesis using en by (simp add: s' slot_at_def)
  next
    case False
    have "\<not> 0 < running a (threads s ! u)" if "u < length (threads s)"
      using sole_runner[OF h en that rt] False by blast
    with False sa[of u] show ?thesis
      by (auto simp: s' slot_at_def)
  qed
  ultimately show ?thesis by (auto simp: slot_ok_def)
qed

lemma slot_ok_call:
  assumes inv: "slot_ok s" and h: "heap_ok s" and en: "t < length (threads s)"
    and pc: "threads s ! t = Code cx c L"
    and s': "s' = s\<lparr>heap := (heap s)(fresh s \<mapsto> \<lparr>use_count = 1, handle = Some (Suspended b), result = None\<rparr>),
               fresh := Suc (fresh s),
               threads := (threads s)[t := Code cx c' L']\<rparr>"
  shows "slot_ok s'"
proof -
  from inv obtain m where m: "deliver (\<lambda>a. None) (trace s) = Some m" and cs: "\<And>a. cell_slot s m a"
    and sa: "\<And>u. slot_at s u"
    by (auto simp: slot_ok_def)
  have nr: "\<not> 0 < running (fresh s) (threads s ! u)" if "u < length (threads s)" for u
    using running_alive[OF h that, of "fresh s"] h
    by (auto simp: heap_ok_def cell_ok_def split: option.splits)
  from m have "deliver (\<lambda>a. None) (trace s') = Some m"
    by (simp add: s')
  moreover have "cell_slot s' m x" for x
    using cs[of x] by (fastforce simp: s' cell_slot_def)
  moreover have "slot_at s' u" for u
  proof (cases "u = t")
    case True
    with sa[of t] nr[of t] en pc show ?thesis
      by (auto simp: s' slot_at_def)
  next
    case False
    with sa[of u] nr[of u] show ?thesis
      by (auto simp: s' slot_at_def)
  qed
  ultimately show ?thesis by (auto simp: slot_ok_def)
qed

lemma slot_ok_thread_step:
  assumes inv: "slot_ok s" and h: "heap_ok s" and step: "thread_step t s = Some s'"
  shows "slot_ok s'"
proof -
  from thread_step_enabled[OF step] have en: "t < length (threads s)" by simp
  from inv have sa: "slot_at s t" by (simp add: slot_ok_def)
  from step show ?thesis
  proof (cases rule: thread_step_kinds)
    case (worker p' s0)
    then show ?thesis
    proof (cases rule: worker_stepE)
      case take_empty
      then show ?thesis using inv by (simp add: slot_ok_fault)
    next
      case (execute_fault a f)
      then show ?thesis using inv by (simp add: slot_ok_fault)
    next
      case (end_iteration a)
      then show ?thesis
        by (intro slot_ok_update[OF inv en]) (auto dest: heap_release)
    qed (rule slot_ok_update[OF inv en]; auto split: if_splits)+
  next
    case (code cx c L p' s0)
    then show ?thesis
    proof (cases rule: code_stepE)
      case (call b k)
      then show ?thesis using slot_ok_call[OF inv h en code(3)] by blast
    next
      case (unhandled a e st)
      then show ?thesis using slot_ok_write[OF inv h en code(3)[unfolded unhandled(1,2,3)]] by blast
    next
      case (return a v st)
      then show ?thesis using slot_ok_write[OF inv h en code(3)[unfolded return(1,2)]] by blast
    next
      case (await_fault a c')
      then show ?thesis using inv by (simp add: slot_ok_fault)
    next
      case (get_dangling y k)
      then show ?thesis using inv by (simp add: slot_ok_fault)
    next
      case (unhandled_fault a e f)
      then show ?thesis using inv by (simp add: slot_ok_fault)
    next
      case (terminate e)
      then show ?thesis using inv by (simp add: slot_ok_fault)
    next
      case (return_fault a v)
      then show ?thesis using inv by (simp add: slot_ok_fault)
    next
      case (get_value y k st v)
      then show ?thesis using slot_ok_got[OF inv en code(3)] by blast
    next
      case (get_failure y k st e)
      then show ?thesis using slot_ok_got[OF inv en code(3)] by blast
    next
      case (destroy y c')
      then show ?thesis using code(3)
        by (intro slot_ok_update[OF inv en]) (auto dest: heap_release)
    next
      case (unwind e y L')
      then show ?thesis using code(3)
        by (intro slot_ok_update[OF inv en]) (auto dest: heap_release)
    next
      case (plain_unwind v y L')
      then show ?thesis using code(3)
        by (intro slot_ok_update[OF inv en]) (auto dest: heap_release)
    qed (rule slot_ok_update[OF inv en]; use code(3) in \<open>auto split: if_splits\<close>)+
  next
    case (leave a L p' s0)
    then show ?thesis
    proof (cases rule: leave_stepE)
      case final_fault
      then show ?thesis using inv by (simp add: slot_ok_fault)
    next
      case (leave_unwind y L')
      then show ?thesis using leave(3)
        by (intro slot_ok_update[OF inv en]) (auto dest: heap_release)
    next
      case (final st)
      with sa en leave(3) have "result st \<noteq> None" by (simp add: slot_at_def)
      with final show ?thesis using leave(3)
        by (intro slot_ok_update[OF inv en]) (fastforce split: if_splits)+
    qed
  qed
qed

lemma slot_ok_init: "slot_ok (init n ps)"
  by (simp add: slot_ok_def cell_slot_def slot_at_def init_def nth_append)

section \<open>The slot invariant in every run\<close>

lemma slot_ok_run: "heap_ok s \<Longrightarrow> slot_ok s \<Longrightarrow> slot_ok (run es s)"
proof (induction es arbitrary: s)
  case Nil
  then show ?case by simp
next
  case (Cons e es)
  have "slot_ok (step e s)"
  proof (cases e)
    case (Step t)
    with Cons.prems slot_ok_thread_step[of s t] show ?thesis
      by (cases "thread_step t s") auto
  next
    case (Request_stop t)
    with Cons.prems show ?thesis
      by (auto simp: slot_ok_def cell_slot_def slot_at_def)
  qed
  with Cons.IH[of "step e s"] Cons.prems heap_ok_step[of s e] show ?case by simp
qed

lemma slot_ok_reach: "slot_ok (run es (init n ps))"
  by (simp add: slot_ok_run heap_ok_init slot_ok_init)

section \<open>What a trace records\<close>

lemma pushed_append [simp]: "pushed (tr @ tr') = pushed tr @ pushed tr'"
  by (induction tr rule: pushed.induct) simp_all

lemma resumed_append [simp]: "resumed (tr @ tr') = resumed tr @ resumed tr'"
  by (induction tr rule: resumed.induct) simp_all

lemma completed_append [simp]: "completed (tr @ tr') = completed tr @ completed tr'"
  by (induction tr rule: completed.induct) simp_all

lemma handover_append:
  "handover n P (tr @ tr') = (handover n P tr \<and> handover n (rev (pushed tr) @ P) tr')"
  by (induction n P tr rule: handover.induct) simp_all

lemma resume_once_append:
  "resume_once R (tr @ tr') = (resume_once R tr \<and> resume_once (rev (resumed tr) @ R) tr')"
  by (induction R tr rule: resume_once.induct) simp_all

lemma resume_once_distinct: "resume_once R tr \<Longrightarrow> distinct R \<Longrightarrow> distinct (resumed tr @ R)"
  by (induction R tr rule: resume_once.induct) auto

lemma hist_ok_fault: "hist_ok n s \<Longrightarrow> hist_ok n (s\<lparr>fault := f\<rparr>)"
  by (simp add: hist_ok_def hist_cell_def hist_at_def)

lemma hist_ok_update:
  assumes inv: "hist_ok n s" and en: "t < length (threads s)"
    and cr: "\<And>a. creating a p' = creating a (threads s ! t)"
    and rl: "is_pool_pc p' = is_pool_pc (threads s ! t)"
    and rn: "\<And>a. 0 < running a p' \<Longrightarrow> 0 < running a (threads s ! t)"
    and hp: "\<And>x st'. heap s' x = Some st' \<Longrightarrow> \<exists>st. heap s x = Some st \<and> handle st' = handle st"
    and fr: "fresh s' = fresh s"
    and tr: "\<exists>evs. trace s' = trace s @ evs \<and> pushed evs = [] \<and> resumed evs = [] \<and> completed evs = []
               \<and> (\<forall>P. handover n P evs) \<and> (\<forall>R. resume_once R evs)"
    and th: "threads s' = (threads s)[t := p']"
  shows "hist_ok n s'"
proof -
  from inv have hc: "\<And>a. hist_cell s a" and ha: "\<And>u. hist_at n s u"
    and ho: "handover n [] (trace s)" and ro: "resume_once [] (trace s)"
    by (simp_all add: hist_ok_def)
  from tr obtain evs where evs: "trace s' = trace s @ evs" "pushed evs = []" "resumed evs = []"
    "completed evs = []" "\<And>P. handover n P evs" "\<And>R. resume_once R evs"
    by blast
  have "hist_cell s' a" for a
  proof -
    have "total (creating a) (threads s') = total (creating a) (threads s)"
      by (simp add: th cr total_split[OF en] total_update[OF en])
    with hc[of a] hp[of a] fr evs show ?thesis
      by (fastforce simp: hist_cell_def)
  qed
  moreover have "hist_at n s' u" for u
    using ha[of u] ha[of t] rl rn en th evs
    by (cases "u = t") (auto simp: hist_at_def)
  moreover have "handover n [] (trace s')" "resume_once [] (trace s')"
    using ho ro evs by (simp_all add: handover_append resume_once_append)
  ultimately show ?thesis by (simp add: hist_ok_def)
qed


lemma total_mono: "(\<And>p. f p \<le> g p) \<Longrightarrow> total f ts \<le> total g ts"
  by (induction ts) (auto simp: total_def add_mono)

lemma others_mono: "(\<And>p. f p \<le> g p) \<Longrightarrow> others f ts t \<le> others g ts t"
  by (simp add: others_def add_mono total_mono)

lemma creating_le_sched: "creating a p \<le> sched a p"
  by (induction a p rule: creating.induct) simp_all

lemma count_list_0: "count_list xs a = 0 \<Longrightarrow> a \<notin> set xs"
  by (simp add: count_list_0_iff)

lemma count_list_1: "count_list xs a = Suc 0 \<Longrightarrow> a \<in> set xs"
  using count_list_0_iff[of xs a] by auto

lemma hist_ok_call:
  assumes inv: "hist_ok n s" and en: "t < length (threads s)"
    and pc: "threads s ! t = Code cx (Run c) L"
    and s': "s' = s\<lparr>heap := (heap s)(fresh s \<mapsto> \<lparr>use_count = 1, handle = Some (Suspended b), result = None\<rparr>),
               fresh := Suc (fresh s),
               threads := (threads s)[t := Code cx (Await_suspend (fresh s) c') (fresh s # L)]\<rparr>"
  shows "hist_ok n s'"
proof -
  note sp = total_split[OF en] and up = total_update[OF en]
  from inv have hc: "\<And>a. hist_cell s a" and ha: "\<And>u. hist_at n s u"
    and ho: "handover n [] (trace s)" and ro: "resume_once [] (trace s)"
    by (simp_all add: hist_ok_def)
  have "hist_cell s' a" for a
    using hc[of a] pc
    by (cases "a = fresh s") (auto simp: hist_cell_def s' sp up)
  moreover have "hist_at n s' u" for u
    using ha[of u] ha[of t] en pc
    by (cases "u = t") (auto simp: hist_at_def s' split: role.splits)
  ultimately show ?thesis using ho ro by (simp add: hist_ok_def s')
qed

lemma hist_ok_push:
  assumes inv: "hist_ok n s" and en: "t < length (threads s)"
    and pc: "threads s ! t = Code cx (Push a c) L"
    and s': "s' = s\<lparr>queue := queue s @ [a], trace := trace s @ [Pushed t a],
               threads := (threads s)[t := Code cx (Unlock_guard c) L]\<rparr>"
  shows "hist_ok n s'"
proof -
  note sp = total_split[OF en] and up = total_update[OF en]
  from inv have hc: "\<And>a. hist_cell s a" and ha: "\<And>u. hist_at n s u"
    and ho: "handover n [] (trace s)" and ro: "resume_once [] (trace s)"
    by (simp_all add: hist_ok_def)
  from hc[of a] pc have "count_list (pushed (trace s)) a = 0"
    by (auto simp: hist_cell_def sp split: if_splits)
  then have new: "a \<notin> set (pushed (trace s))" by (rule count_list_0)
  have "hist_cell s' x" for x
    using hc[of x] pc
    by (cases "x = a") (auto simp: hist_cell_def s' sp up split: if_splits)
  moreover have "hist_at n s' u" for u
    using ha[of u] ha[of t] en pc
    by (cases "u = t") (auto simp: hist_at_def s' split: role.splits)
  ultimately show ?thesis using ho ro new
    by (simp add: hist_ok_def s' handover_append resume_once_append)
qed

lemma hist_ok_execute:
  assumes inv: "hist_ok n s" and h: "heap_ok s" and en: "t < length (threads s)"
    and pc: "threads s ! t = Execute a"
    and hp: "heap s a = Some st" "handle st = Some (Suspended b)"
    and s': "s' = s\<lparr>heap := (heap s)(a \<mapsto> st\<lparr>handle := Some Active\<rparr>), trace := trace s @ [Resumed t a],
               threads := (threads s)[t := Code (Coroutine a) (Run b) []]\<rparr>"
  shows "hist_ok n s'"
proof -
  note sp = total_split[OF en] and up = total_update[OF en]
  from inv have hc: "\<And>a. hist_cell s a" and ha: "\<And>u. hist_at n s u"
    and ho: "handover n [] (trace s)" and ro: "resume_once [] (trace s)"
    by (simp_all add: hist_ok_def)
  from h have c: "cell_ok s a" by (simp add: heap_ok_def)
  with hp pc have lt: "a < fresh s" and "others (sched a) (threads s) t = 0"
    by (auto simp: cell_ok_def pend_def sp)
  with others_mono[of "creating a" "sched a" "threads s" t] creating_le_sched
  have "others (creating a) (threads s) t = 0" by simp
  with hc[of a] pc lt have "count_list (pushed (trace s)) a = Suc 0"
    by (simp add: hist_cell_def sp)
  then have was_pushed: "a \<in> set (pushed (trace s))" by (rule count_list_1)
  from hc[of a] hp have fresh_resume: "a \<notin> set (resumed (trace s))"
    by (auto simp: hist_cell_def)
  from ha[of t] en pc have worker: "t < n" by (simp add: hist_at_def)
  have "hist_cell s' x" for x
    using hc[of x] hc[of a] pc hp lt was_pushed
    by (cases "x = a") (auto simp: hist_cell_def s' sp up)
  moreover have "hist_at n s' u" for u
    using ha[of u] ha[of t] en pc
    by (cases "u = t") (auto simp: hist_at_def s' split: if_splits)
  ultimately show ?thesis using ho ro was_pushed fresh_resume worker
    by (simp add: hist_ok_def s' handover_append resume_once_append)
qed

lemma hist_ok_final:
  assumes inv: "hist_ok n s" and en: "t < length (threads s)"
    and pc: "threads s ! t = Final_suspend a []"
    and hp: "heap s a = Some st"
    and s': "s' = s\<lparr>heap := (heap s)(a \<mapsto> st\<lparr>handle := None\<rparr>), trace := trace s @ [Completed t a],
               threads := (threads s)[t := End_iteration a]\<rparr>"
  shows "hist_ok n s'"
proof -
  note sp = total_split[OF en] and up = total_update[OF en]
  from inv have hc: "\<And>a. hist_cell s a" and ha: "\<And>u. hist_at n s u"
    and ho: "handover n [] (trace s)" and ro: "resume_once [] (trace s)"
    by (simp_all add: hist_ok_def)
  from ha[of t] en pc have was_resumed: "a \<in> set (resumed (trace s))"
    by (simp add: hist_at_def)
  have "hist_cell s' x" for x
    using hc[of x] pc hp was_resumed
    by (cases "x = a") (auto simp: hist_cell_def s' sp up)
  moreover have "hist_at n s' u" for u
    using ha[of u] ha[of t] en pc
    by (cases "u = t") (auto simp: hist_at_def s')
  ultimately show ?thesis using ho ro was_resumed
    by (simp add: hist_ok_def s' handover_append resume_once_append)
qed

lemma heap_release_handle:
  "heap (release x s) y = Some st' \<Longrightarrow> \<exists>st. heap s y = Some st \<and> handle st' = handle st"
  using heap_release by blast

lemma hist_ok_thread_step:
  assumes inv: "hist_ok n s" and h: "heap_ok s" and step: "thread_step t s = Some s'"
  shows "hist_ok n s'"
proof -
  from thread_step_enabled[OF step] have en: "t < length (threads s)" by simp
  from step show ?thesis
  proof (cases rule: thread_step_kinds)
    case (worker p' s0)
    then show ?thesis
    proof (cases rule: worker_stepE)
      case take_empty
      then show ?thesis using inv by (simp add: hist_ok_fault)
    next
      case (execute_fault a f)
      then show ?thesis using inv by (simp add: hist_ok_fault)
    next
      case (execute a st b)
      then show ?thesis using hist_ok_execute[OF inv h en] by blast
    next
      case (end_iteration a)
      then show ?thesis
        by (intro hist_ok_update[OF inv en]) (auto dest: heap_release_handle)
    qed (rule hist_ok_update[OF inv en]; simp)+
  next
    case (code cx c L p' s0)
    then show ?thesis
    proof (cases rule: code_stepE)
      case (call b k)
      then show ?thesis using hist_ok_call[OF inv en code(3)[unfolded call(1)]] by blast
    next
      case (push a c')
      then show ?thesis using hist_ok_push[OF inv en code(3)[unfolded push(1)]] by blast
    next
      case (await_fault a c')
      then show ?thesis using inv by (simp add: hist_ok_fault)
    next
      case (get_dangling y k)
      then show ?thesis using inv by (simp add: hist_ok_fault)
    next
      case (unhandled_fault a e f)
      then show ?thesis using inv by (simp add: hist_ok_fault)
    next
      case (terminate e)
      then show ?thesis using inv by (simp add: hist_ok_fault)
    next
      case (return_fault a v)
      then show ?thesis using inv by (simp add: hist_ok_fault)
    next
      case (destroy y c')
      then show ?thesis using code(3)
        by (intro hist_ok_update[OF inv en]) (auto dest: heap_release_handle)
    next
      case (unwind e y L')
      then show ?thesis using code(3)
        by (intro hist_ok_update[OF inv en]) (auto dest: heap_release_handle)
    next
      case (plain_unwind v y L')
      then show ?thesis using code(3)
        by (intro hist_ok_update[OF inv en]) (auto dest: heap_release_handle)
    qed (rule hist_ok_update[OF inv en]; use code(3) in \<open>auto split: if_splits\<close>)+
  next
    case (leave a L p' s0)
    then show ?thesis
    proof (cases rule: leave_stepE)
      case final_fault
      then show ?thesis using inv by (simp add: hist_ok_fault)
    next
      case (leave_unwind y L')
      then show ?thesis using leave(3)
        by (intro hist_ok_update[OF inv en]) (auto dest: heap_release_handle)
    next
      case (final st)
      then show ?thesis using hist_ok_final[OF inv en leave(3)[unfolded final(1)]] by blast
    qed
  qed
qed

lemma hist_ok_init: "hist_ok n (init n ps)"
  by (auto simp: hist_ok_def hist_cell_def hist_at_def init_def nth_append total_append
      total_replicate_0 total_map_0)

lemma hist_ok_run: "heap_ok s \<Longrightarrow> hist_ok n s \<Longrightarrow> hist_ok n (run es s)"
proof (induction es arbitrary: s)
  case Nil
  then show ?case by simp
next
  case (Cons e es)
  have "hist_ok n (step e s)"
  proof (cases e)
    case (Step t)
    with Cons.prems hist_ok_thread_step[of n s t] show ?thesis
      by (cases "thread_step t s") auto
  next
    case (Request_stop t)
    with Cons.prems show ?thesis
      by (simp add: hist_ok_def hist_cell_def hist_at_def)
  qed
  with Cons.IH[of "step e s"] Cons.prems heap_ok_step[of s e] show ?case by simp
qed

lemma hist_ok_reach: "hist_ok n (run es (init n ps))"
  by (simp add: hist_ok_run heap_ok_init hist_ok_init)

section \<open>Addresses are pushed once\<close>

lemma handover_distinct: "handover n P tr \<Longrightarrow> distinct P \<Longrightarrow> distinct (pushed tr @ P)"
  by (induction n P tr rule: handover.induct) auto

section \<open>One worker serves the queue in order\<close>

lemma line_append: "line w (tr @ tr') = line (line w tr) tr'"
  by (induction w tr rule: line.induct) simp_all

lemma in_service_append: "in_service c (tr @ tr') = in_service (in_service c tr) tr'"
  by (induction c tr rule: in_service.induct) simp_all

lemma fifo_append:
  "fifo w c (tr @ tr') = (fifo w c tr \<and> fifo (line w tr) (in_service c tr) tr')"
  by (induction w c tr rule: fifo.induct) (auto split: list.splits)

lemma fifo_ok_fault: "fifo_ok s \<Longrightarrow> fifo_ok (s\<lparr>fault := f\<rparr>)"
  by (simp add: fifo_ok_def)

lemma fifo_ok_update:
  assumes inv: "fifo_ok s" and en: "t < length (threads s)"
    and hd: "held p' = held (threads s ! t)"
    and cu: "current p' = current (threads s ! t)"
    and qu: "queue s' = queue s"
    and tr: "\<exists>evs. trace s' = trace s @ evs
               \<and> (\<forall>w c. fifo w c evs \<and> line w evs = w \<and> in_service c evs = c)"
    and th: "threads s' = (threads s)[t := p']"
  shows "fifo_ok s'"
proof -
  from tr obtain evs where evs: "trace s' = trace s @ evs"
    "\<And>w c. fifo w c evs" "\<And>w. line w evs = w" "\<And>c. in_service c evs = c"
    by blast
  have "held (threads s' ! 0) = held (threads s ! 0)" "current (threads s' ! 0) = current (threads s ! 0)"
    using hd cu en th by (cases "t = 0"; simp)+
  with inv qu evs th show ?thesis
    by (simp add: fifo_ok_def fifo_append line_append in_service_append)
qed

lemma sole_worker:
  assumes "hist_ok 1 s" and "t < length (threads s)" and "is_pool_pc (threads s ! t)"
  shows "t = 0"
  using assms by (auto simp: hist_ok_def hist_at_def)

lemma fifo_ok_thread_step:
  assumes inv: "fifo_ok s" and hi: "hist_ok 1 s" and step: "thread_step t s = Some s'"
  shows "fifo_ok s'"
proof -
  from thread_step_enabled[OF step] have en: "t < length (threads s)" by simp
  note sw = sole_worker[OF hi en]
  from step show ?thesis
  proof (cases rule: thread_step_kinds)
    case (worker p' s0)
    then show ?thesis
    proof (cases rule: worker_stepE)
      case take_empty
      then show ?thesis using inv by (simp add: fifo_ok_fault)
    next
      case (execute_fault a f)
      then show ?thesis using inv by (simp add: fifo_ok_fault)
    next
      case (take a q)
      with sw inv show ?thesis by (simp add: fifo_ok_def)
    next
      case (execute a st b)
      with sw inv show ?thesis
        by (simp add: fifo_ok_def fifo_append line_append in_service_append)
    qed (rule fifo_ok_update[OF inv en]; simp)+
  next
    case (code cx c L p' s0)
    then show ?thesis
    proof (cases rule: code_stepE)
      case (push a c')
      have "held (threads s' ! 0) = held (threads s ! 0)" "current (threads s' ! 0) = current (threads s ! 0)"
        using push code(3) en by (cases "t = 0"; simp)+
      with push inv show ?thesis
        by (simp add: fifo_ok_def fifo_append line_append in_service_append)
    next
      case (await_fault a c')
      then show ?thesis using inv by (simp add: fifo_ok_fault)
    next
      case (get_dangling y k)
      then show ?thesis using inv by (simp add: fifo_ok_fault)
    next
      case (unhandled_fault a e f)
      then show ?thesis using inv by (simp add: fifo_ok_fault)
    next
      case (terminate e)
      then show ?thesis using inv by (simp add: fifo_ok_fault)
    next
      case (return_fault a v)
      then show ?thesis using inv by (simp add: fifo_ok_fault)
    qed (rule fifo_ok_update[OF inv en]; use code(3) in simp)+
  next
    case (leave a L p' s0)
    then show ?thesis
    proof (cases rule: leave_stepE)
      case final_fault
      then show ?thesis using inv by (simp add: fifo_ok_fault)
    next
      case (leave_unwind y L')
      then show ?thesis using leave(3)
        by (intro fifo_ok_update[OF inv en]) simp_all
    next
      case (final st)
      with sw leave(3) inv show ?thesis
        by (simp add: fifo_ok_def fifo_append line_append in_service_append)
    qed
  qed
qed

lemma fifo_ok_init: "fifo_ok (init 1 ps)"
  by (simp add: fifo_ok_def init_def)

lemma fifo_ok_run: "heap_ok s \<Longrightarrow> hist_ok 1 s \<Longrightarrow> fifo_ok s \<Longrightarrow> fifo_ok (run es s)"
proof (induction es arbitrary: s)
  case Nil
  then show ?case by simp
next
  case (Cons e es)
  have "fifo_ok (step e s)"
  proof (cases e)
    case (Step t)
    with Cons.prems fifo_ok_thread_step[of s t] show ?thesis
      by (cases "thread_step t s") auto
  next
    case (Request_stop t)
    with Cons.prems show ?thesis by (simp add: fifo_ok_def)
  qed
  moreover have "hist_ok 1 (step e s)"
    using hist_ok_run[of s 1 "[e]"] Cons.prems by simp
  ultimately show ?case
    using Cons.IH[of "step e s"] Cons.prems heap_ok_step[of s e] by simp
qed

lemma fifo_ok_reach: "fifo_ok (run es (init 1 ps))"
  by (rule fifo_ok_run[OF heap_ok_init hist_ok_init fifo_ok_init])


lemma fifo_order: "fifo w c tr \<Longrightarrow> resumed tr @ line w tr = w @ pushed tr"
  by (induction w c tr rule: fifo.induct) (auto split: list.splits)

lemma fifo_idle:
  "fifo w c tr \<Longrightarrow> in_service c tr = None \<Longrightarrow>
     completed tr = (case c of None \<Rightarrow> [] | Some a \<Rightarrow> [a]) @ resumed tr"
  by (induction w c tr rule: fifo.induct) (auto split: list.splits)

lemma fifo_resumed_head:
  assumes "fifo [] None (tr1 @ Resumed t b # tr2)"
  shows "completed tr1 = resumed tr1 \<and> (\<exists>w. pushed tr1 = resumed tr1 @ b # w)"
proof -
  from assms have f1: "fifo [] None tr1"
    and f2: "fifo (line [] tr1) (in_service None tr1) (Resumed t b # tr2)"
    by (simp_all add: fifo_append)
  from f2 obtain w where w: "line [] tr1 = b # w" and idle: "in_service None tr1 = None"
    by (auto split: list.splits)
  from fifo_idle[OF f1 idle] have "completed tr1 = resumed tr1" by simp
  moreover from fifo_order[OF f1] w have "pushed tr1 = resumed tr1 @ b # w" by simp
  ultimately show ?thesis by blast
qed

section \<open>What a trace writes to a slot\<close>

lemma writes_append [simp]: "writes a (tr @ tr') = writes a tr @ writes a tr'"
  by (induction a tr rule: writes.induct) simp_all

lemma deliver_writes:
  "deliver m tr = Some m' \<Longrightarrow>
     (case m a of None \<Rightarrow> [] | Some r \<Rightarrow> [r]) @ writes a tr = (case m' a of None \<Rightarrow> [] | Some r \<Rightarrow> [r])"
proof (induction m tr arbitrary: m' rule: deliver.induct)
  case (2 m x r tr)
  from "2.prems" have mx: "m x = None" and d: "deliver (m(x \<mapsto> r)) tr = Some m'"
    by (auto split: if_splits)
  from "2.IH"[OF mx d] mx show ?case by (cases "x = a") auto
qed (auto split: if_splits)

lemma deliver_prefix:
  "deliver m (tr @ tr') = Some m' \<Longrightarrow> \<exists>m1. deliver m tr = Some m1 \<and> deliver m1 tr' = Some m'"
  by (auto simp: deliver_append split: option.splits)

lemma written_once:
  assumes "deliver (\<lambda>a. None) tr = Some m"
  shows "writes a tr = (case m a of None \<Rightarrow> [] | Some r \<Rightarrow> [r])"
  using deliver_writes[OF assms, of a] by simp

lemma written_before_completion:
  assumes "deliver (\<lambda>a. None) (tr1 @ Completed t a # tr2) = Some m"
  shows "length (writes a tr1) = 1"
proof -
  from deliver_prefix[OF assms] obtain m1 where m1: "deliver (\<lambda>a. None) tr1 = Some m1"
    and rest: "deliver m1 (Completed t a # tr2) = Some m"
    by blast
  from rest have "m1 a \<noteq> None" by (auto split: if_splits)
  with written_once[OF m1, of a] show ?thesis by auto
qed

lemma written_before_retrieval:
  assumes "deliver (\<lambda>a. None) (tr1 @ Got t a r # tr2) = Some m"
  shows "writes a tr1 = [r] \<and> writes a (tr1 @ Got t a r # tr2) = [r]"
proof -
  from deliver_prefix[OF assms] obtain m1 where m1: "deliver (\<lambda>a. None) tr1 = Some m1"
    and rest: "deliver m1 (Got t a r # tr2) = Some m"
    by blast
  from rest have r: "m1 a = Some r" by (auto split: if_splits)
  with written_once[OF m1, of a] have w1: "writes a tr1 = [r]" by simp
  from written_once[OF assms, of a] have "length (writes a (tr1 @ Got t a r # tr2)) \<le> 1"
    by (auto split: option.splits)
  with w1 show ?thesis by simp
qed

lemma starved_eq:
  "starved =
     \<lparr>threads = [Exited, Code Plain (Run (Get_result 0 (\<lambda>r. Destroy 0 (Return r)))) [0]],
      stop_requested = (\<lambda>t. False)(0 := True),
      mutex = None,
      queue = [0],
      heap = (\<lambda>a. None)(0 \<mapsto> \<lparr>use_count = 2, handle = Some (Suspended (Return 7)), result = None\<rparr>),
      fresh = 1,
      fault = None,
      trace = [Pushed 1 0, Notified 1, Left 0]\<rparr>"
  by (simp add: starved_def one_submission_def exec numeral_2_eq_2)

lemma starved_blocked: "thread_step t (starved\<lparr>stop_requested := f\<rparr>) = None"
proof (cases t)
  case 0
  then show ?thesis by (simp add: starved_eq exec)
next
  case (Suc u)
  then show ?thesis by (cases u) (simp_all add: starved_eq exec)
qed

lemma starved_for_ever: "\<exists>f'. run es (starved\<lparr>stop_requested := f\<rparr>) = starved\<lparr>stop_requested := f'\<rparr>"
proof (induction es arbitrary: f)
  case Nil
  show ?case by auto
next
  case (Cons e es)
  show ?case
  proof (cases e)
    case (Step t)
    with Cons[of f] show ?thesis by (simp add: starved_blocked)
  next
    case (Request_stop t)
    with Cons[of "f(t := True)"] show ?thesis by (simp add: fun_upd_def)
  qed
qed

section \<open>Outcomes and output of user code\<close>

inductive_cases runs_ReturnE: "runs E (Return v) outs r"
inductive_cases runs_ThrowE: "runs E (Throw e) outs r"
inductive_cases runs_CallE: "runs E (Call b k) outs r"
inductive_cases runs_GetE: "runs E (Get_result x k) outs r"
inductive_cases runs_DestroyE: "runs E (Destroy x c) outs r"
inductive_cases runs_PrintfE: "runs E (Printf i v c) outs r"

lemma printed_append [simp]: "printed (tr @ tr') = printed tr @ printed tr'"
  by (induction tr rule: printed.induct) simp_all

lemma runs_mono: "runs E b outs r \<Longrightarrow> E \<subseteq>\<^sub>m E' \<Longrightarrow> runs E' b outs r"
proof (induction arbitrary: E' rule: runs.induct)
  case (Call E b r' k outs r)
  show ?case
  proof (rule runs.Call)
    show "runs E' b [] r'" using Call.IH(1) Call.prems by blast
  next
    show "fits r'" by (rule Call.hyps)
  next
    fix a
    assume free: "E' a = None"
    with Call.prems have "E a = None"
      by (metis domIff map_le_def option.distinct(1) not_None_eq)
    moreover from Call.prems have "E(a \<mapsto> r') \<subseteq>\<^sub>m E'(a \<mapsto> r')"
      by (auto simp: map_le_def)
    ultimately show "runs (E'(a \<mapsto> r')) (k a) outs r" using Call.IH(2) by blast
  qed
next
  case (Get_value E x v k outs r)
  then have "E' x = Some (Value v)" by (metis domI map_le_def)
  with Get_value show ?case by (auto intro: runs.Get_value)
next
  case (Get_failure E x e k)
  then have "E' x = Some (Failure e)" by (metis domI map_le_def)
  then show ?case by (rule runs.Get_failure)
qed (auto intro: runs.intros)

lemma expects_mono: "expects E outs pr cx b \<Longrightarrow> E \<subseteq>\<^sub>m E' \<Longrightarrow> expects E' outs pr cx b"
proof (cases cx)
  case (Coroutine a)
  assume e: "expects E outs pr cx b" and le: "E \<subseteq>\<^sub>m E'"
  with Coroutine obtain r where r: "E a = Some r" "runs E b [] r" by (auto simp: expects_def)
  from r(1) le have "E' a = Some r" by (metis domI map_le_def)
  with r(2) le Coroutine show ?thesis by (auto simp: expects_def intro: runs_mono)
next
  case Plain
  assume "expects E outs pr cx b" and "E \<subseteq>\<^sub>m E'"
  with Plain show ?thesis by (auto simp: expects_def intro: runs_mono)
qed

lemma expects_destroy: "expects E outs pr cx (Destroy x c) \<Longrightarrow> expects E outs pr cx c"
  by (auto simp: expects_def elim: runs_DestroyE split: role.splits)

lemma expects_get_value:
  "expects E outs pr cx (Get_result x k) \<Longrightarrow> E x = Some (Value v) \<Longrightarrow> expects E outs pr cx (k v)"
  by (auto simp: expects_def elim!: runs_GetE split: role.splits)

lemma expects_get_failure:
  "expects E outs pr cx (Get_result x k) \<Longrightarrow> E x = Some (Failure e) \<Longrightarrow> expects E outs pr cx (Throw e)"
  by (auto simp: expects_def elim!: runs_GetE intro: runs.Throw split: role.splits)

lemma expects_printf:
  "expects E outs pr cx (Printf i v c) \<Longrightarrow> cx = Plain \<and> expects E outs (pr @ [(i, v)]) Plain c"
  by (auto simp: expects_def elim!: runs_PrintfE split: role.splits)

lemma expects_call:
  assumes "expects E outs pr cx (Call b k)" and "E a = None"
  shows "\<exists>r'. runs E b [] r' \<and> fits r' \<and> expects (E(a \<mapsto> r')) outs pr cx (k a)"
proof (cases cx)
  case (Coroutine a0)
  with assms obtain r where r: "E a0 = Some r" "runs E (Call b k) [] r" by (auto simp: expects_def)
  from r(2) obtain r' where "runs E b [] r'" "fits r'" "runs (E(a \<mapsto> r')) (k a) [] r"
    using assms(2) by (auto elim: runs_CallE)
  moreover from r(1) assms(2) have "(E(a \<mapsto> r')) a0 = Some r" by auto
  ultimately show ?thesis using Coroutine by (auto simp: expects_def)
next
  case Plain
  with assms obtain outs' r where r: "runs E (Call b k) outs' r" "pr @ outs' = outs"
    by (auto simp: expects_def)
  from r(1) obtain r' where "runs E b [] r'" "fits r'" "runs (E(a \<mapsto> r')) (k a) outs' r"
    using assms(2) by (auto elim: runs_CallE)
  with r(2) Plain show ?thesis by (auto simp: expects_def)
qed

lemma expects_return: "expects E outs pr (Coroutine a) (Return v) \<Longrightarrow> E a = Some (Value v)"
  by (auto simp: expects_def elim: runs_ReturnE)

lemma expects_throw: "expects E outs pr (Coroutine a) (Throw e) \<Longrightarrow> E a = Some (Failure e)"
  by (auto simp: expects_def elim: runs_ThrowE)

lemma expects_plain_return: "expects E outs pr Plain (Return v) \<Longrightarrow> pr = outs"
  by (auto simp: expects_def elim: runs_ReturnE)

section \<open>The outcome of every task is fixed when it is created\<close>

lemma good_pc_pool: "is_pool_pc p \<Longrightarrow> good_pc E outs pr p = good_pc E outs pr' p"
  by (cases p) (auto simp: expects_def split: role.splits)

lemma good_pc_mono: "good_pc E outs pr p \<Longrightarrow> E \<subseteq>\<^sub>m E' \<Longrightarrow> good_pc E' outs pr p"
  by (cases p) (auto intro: expects_mono)

lemma good_with_fault: "good_with E outs s \<Longrightarrow> good_with E outs (s\<lparr>fault := f\<rparr>)"
  by (simp add: good_with_def good_cell_def)

lemma good_update:
  assumes inv: "good_with E outs s" and en: "t < length (threads s)"
    and hp: "\<And>x st'. heap s' x = Some st' \<Longrightarrow>
               \<exists>st. heap s x = Some st \<and> (result st' = result st \<or> result st' = E x)
                 \<and> (\<forall>b. handle st' = Some (Suspended b) \<longrightarrow> handle st = Some (Suspended b))"
    and fr: "fresh s' = fresh s"
    and pr: "printed (trace s') = printed (trace s)"
    and tc: "good_pc E outs (printed (trace s)) p'"
    and th: "threads s' = (threads s)[t := p']"
  shows "good_with E outs s'"
proof -
  from inv have gc: "\<And>a. good_cell E s a"
    and gt: "\<And>u. u < length (threads s) \<Longrightarrow> good_pc E outs (printed (trace s)) (threads s ! u)"
    by (simp_all add: good_with_def)
  have "good_cell E s' a" for a
    using gc[of a] hp[of a] fr by (fastforce simp: good_cell_def)
  moreover have "good_pc E outs (printed (trace s')) (threads s' ! u)" if "u < length (threads s')" for u
    using gt[of u] that tc th pr by (cases "u = t") auto
  ultimately show ?thesis by (simp add: good_with_def)
qed

lemma good_printf:
  assumes inv: "good_with E outs s" and len: "length (threads s) = Suc n" and hist: "hist_ok n s"
    and en: "t < length (threads s)"
    and pc: "threads s ! t = Code cx (Run (Printf i v c)) L"
    and s': "s' = s\<lparr>trace := trace s @ [Printed i v], threads := (threads s)[t := Code cx (Run c) L]\<rparr>"
  shows "good_with E outs s'"
proof -
  from inv have gc: "\<And>a. good_cell E s a"
    and gt: "\<And>u. u < length (threads s) \<Longrightarrow> good_pc E outs (printed (trace s)) (threads s ! u)"
    by (simp_all add: good_with_def)
  from hist have ha: "\<And>u. hist_at n s u" by (simp add: hist_ok_def)
  from gt[OF en] pc have "expects E outs (printed (trace s)) cx (Printf i v c)" by simp
  from expects_printf[OF this]
  have cx: "cx = Plain" and ex: "expects E outs (printed (trace s) @ [(i, v)]) Plain c" by simp_all
  from ha[of t] en pc cx have tn: "\<not> t < n" by (simp add: hist_at_def)
  have "good_cell E s' a" for a
    using gc[of a] by (simp add: s' good_cell_def)
  moreover have "good_pc E outs (printed (trace s')) (threads s' ! u)" if u: "u < length (threads s')" for u
  proof (cases "u = t")
    case True
    with u ex cx show ?thesis by (simp add: s')
  next
    case False
    with u len tn en have "u < n" by (simp add: s')
    with ha[of u] u have "is_pool_pc (threads s ! u)" by (simp add: s' hist_at_def)
    from good_pc_pool[OF this, of E outs "printed (trace s) @ [(i, v)]" "printed (trace s)"] gt[of u] u False
    show ?thesis by (simp add: s')
  qed
  ultimately show ?thesis by (simp add: good_with_def)
qed

lemma good_call:
  assumes inv: "good_with E outs s" and en: "t < length (threads s)"
    and pc: "threads s ! t = Code cx (Run (Call b k)) L"
    and s': "s' = s\<lparr>heap := (heap s)(fresh s \<mapsto> \<lparr>use_count = 1, handle = Some (Suspended b), result = None\<rparr>),
               fresh := Suc (fresh s),
               threads := (threads s)[t := Code cx (Await_suspend (fresh s) (k (fresh s))) L']\<rparr>"
  shows "\<exists>E'. good_with E' outs s'"
proof -
  from inv have gc: "\<And>a. good_cell E s a"
    and gt: "\<And>u. u < length (threads s) \<Longrightarrow> good_pc E outs (printed (trace s)) (threads s ! u)"
    by (simp_all add: good_with_def)
  from gc[of "fresh s"] have free: "E (fresh s) = None" by (simp add: good_cell_def)
  from gt[OF en] pc have "expects E outs (printed (trace s)) cx (Call b k)" by simp
  from expects_call[OF this free] obtain r' where
    b: "runs E b [] r'" and fr: "fits r'"
    and k: "expects (E(fresh s \<mapsto> r')) outs (printed (trace s)) cx (k (fresh s))"
    by blast
  let ?E = "E(fresh s \<mapsto> r')"
  from free have le: "E \<subseteq>\<^sub>m ?E" by (auto simp: map_le_def)
  have "good_cell ?E s' a" for a
  proof (cases "a = fresh s")
    case True
    with runs_mono[OF b le] fr show ?thesis by (simp add: s' good_cell_def)
  next
    case False
    with gc[of a] runs_mono[OF _ le] show ?thesis
      by (fastforce simp: s' good_cell_def)
  qed
  moreover have "good_pc ?E outs (printed (trace s')) (threads s' ! u)" if u: "u < length (threads s')" for u
  proof (cases "u = t")
    case True
    with u k show ?thesis by (simp add: s')
  next
    case False
    with good_pc_mono[OF gt[of u] le] u show ?thesis by (simp add: s')
  qed
  ultimately have "good_with ?E outs s'" by (simp add: good_with_def)
  then show ?thesis by blast
qed

lemma good_write:
  assumes inv: "good_with E outs s" and en: "t < length (threads s)"
    and ea: "E a = Some r"
    and hp: "heap s a = Some st"
    and s': "s' = s\<lparr>heap := (heap s)(a \<mapsto> st\<lparr>result := Some r\<rparr>), trace := trace s @ [Wrote a r],
                 threads := (threads s)[t := Final_suspend a L]\<rparr>"
  shows "good_with E outs s'"
  by (rule good_update[OF inv en]) (use ea hp in \<open>auto simp: s' split: if_splits\<close>)

lemma good_thread_step:
  assumes inv: "good_with E outs s" and len: "length (threads s) = Suc n"
    and h: "heap_ok s" and sl: "slot_ok s" and hist: "hist_ok n s"
    and step: "thread_step t s = Some s'"
  shows "\<exists>E'. good_with E' outs s'"
proof -
  from thread_step_enabled[OF step] have en: "t < length (threads s)" by simp
  from inv have gc: "\<And>a. good_cell E s a"
    and gt: "good_pc E outs (printed (trace s)) (threads s ! t)"
    using en by (simp_all add: good_with_def)
  from sl have sa: "slot_at s t" by (simp add: slot_ok_def)
  have same: "good_with E outs s' \<Longrightarrow> ?thesis" by blast
  from step show ?thesis
  proof (cases rule: thread_step_kinds)
    case (worker p' s0)
    then show ?thesis
    proof (cases rule: worker_stepE)
      case take_empty
      then show ?thesis using inv by (auto intro!: same good_with_fault)
    next
      case (execute_fault a f)
      then show ?thesis using inv by (auto intro!: same good_with_fault)
    next
      case (end_iteration a)
      then show ?thesis
        by (intro same good_update[OF inv en]) (auto dest: heap_release)
    next
      case (execute a st b)
      with gc[of a] have "good_pc E outs (printed (trace s)) (Code (Coroutine a) (Run b) [])"
        by (auto simp: good_cell_def expects_def)
      with execute show ?thesis
        by (intro same good_update[OF inv en]) (auto split: if_splits)
    qed (rule same, rule good_update[OF inv en]; auto split: if_splits)+
  next
    case (code cx c L p' s0)
    from gt code(3) have ex: "expects E outs (printed (trace s)) cx (code_of c)" by simp
    from code show ?thesis
    proof (cases rule: code_stepE)
      case (call b k)
      then show ?thesis using good_call[OF inv en code(3)[unfolded call(1)]] by blast
    next
      case (await_fault a c')
      then show ?thesis using inv by (auto intro!: same good_with_fault)
    next
      case (get_dangling y k)
      then show ?thesis using inv by (auto intro!: same good_with_fault)
    next
      case (unhandled_fault a e f)
      then show ?thesis using inv by (auto intro!: same good_with_fault)
    next
      case (terminate e)
      then show ?thesis using inv by (auto intro!: same good_with_fault)
    next
      case (return_fault a v)
      then show ?thesis using inv by (auto intro!: same good_with_fault)
    next
      case (get_value y k st v)
      with gc[of y] have "E y = Some (Value v)" by (auto simp: good_cell_def)
      with ex get_value(1) have "expects E outs (printed (trace s)) cx (k v)"
        by (auto intro: expects_get_value)
      with get_value show ?thesis
        by (intro same good_update[OF inv en]) auto
    next
      case (get_failure y k st e)
      with gc[of y] have "E y = Some (Failure e)" by (auto simp: good_cell_def)
      with ex get_failure(1) have "expects E outs (printed (trace s)) cx (Throw e)"
        by (auto intro: expects_get_failure)
      with get_failure show ?thesis
        by (intro same good_update[OF inv en]) auto
    next
      case (destroy y c')
      with ex have "expects E outs (printed (trace s)) cx c'" by (auto dest: expects_destroy)
      with destroy show ?thesis
        by (intro same good_update[OF inv en]) (auto dest: heap_release)
    next
      case (destroy_skip y c')
      with ex have "expects E outs (printed (trace s)) cx c'" by (auto dest: expects_destroy)
      with destroy_skip show ?thesis
        by (intro same good_update[OF inv en]) auto
    next
      case (printf i v c')
      then show ?thesis using good_printf[OF inv len hist en code(3)[unfolded printf(1)]] by blast
    next
      case (unwind e y L')
      with ex show ?thesis
        by (intro same good_update[OF inv en]) (auto dest: heap_release)
    next
      case (plain_unwind v y L')
      with ex show ?thesis
        by (intro same good_update[OF inv en]) (auto dest: heap_release)
    next
      case (unhandled a e st)
      with ex have "E a = Some (Failure e)" by (auto dest: expects_throw)
      from good_write[OF inv en this unhandled(4)] unhandled show ?thesis by blast
    next
      case (return a v st)
      with ex have "E a = Some (Value v)" by (auto dest: expects_return)
      from good_write[OF inv en this return(3)] return show ?thesis by blast
    next
      case (return_refused a v st r)
      with sa en code(3) show ?thesis by (auto simp: slot_at_def)
    next
      case (plain_return v)
      with ex have "good_pc E outs (printed (trace s)) Returned" by (auto dest: expects_plain_return)
      with plain_return show ?thesis
        by (intro same good_update[OF inv en]) auto
    qed (rule same, rule good_update[OF inv en]; use ex in \<open>auto split: if_splits\<close>)+
  next
    case (leave a L p' s0)
    then show ?thesis
    proof (cases rule: leave_stepE)
      case final_fault
      then show ?thesis using inv by (auto intro!: same good_with_fault)
    next
      case (leave_unwind y L')
      then show ?thesis
        by (intro same good_update[OF inv en]) (auto dest: heap_release)
    next
      case (final st)
      then show ?thesis
        by (intro same good_update[OF inv en]) (auto split: if_splits)
    qed
  qed
qed

lemma good_init:
  assumes "runs (\<lambda>a. None) p outs r"
  shows "good n outs (init n [p])"
proof -
  have "good_with (\<lambda>a. None) outs (init n [p])"
    using assms by (auto simp: good_with_def good_cell_def init_def nth_append expects_def)
  then show ?thesis by (auto simp: good_def init_def)
qed

lemma good_run:
  "heap_ok s \<Longrightarrow> slot_ok s \<Longrightarrow> hist_ok n s \<Longrightarrow> good n outs s \<Longrightarrow> good n outs (run es s)"
proof (induction es arbitrary: s)
  case Nil
  then show ?case by simp
next
  case (Cons e es)
  have "good n outs (step e s)"
  proof (cases e)
    case (Step t)
    show ?thesis
    proof (cases "thread_step t s")
      case None
      with Step Cons.prems show ?thesis by simp
    next
      case (Some s')
      from Cons.prems(4) obtain E where E: "good_with E outs s" and len: "length (threads s) = Suc n"
        by (auto simp: good_def)
      from good_thread_step[OF E len Cons.prems(1,2,3) Some] obtain E' where "good_with E' outs s'"
        by blast
      moreover from len have "length (threads (step (Step t) s)) = Suc n"
        by (simp only: length_threads_step)
      ultimately show ?thesis using Step Some by (auto simp: good_def)
    qed
  next
    case (Request_stop t)
    with Cons.prems show ?thesis
      by (auto simp: good_def good_with_def good_cell_def)
  qed
  moreover have "slot_ok (step e s)"
    using slot_ok_run[OF Cons.prems(1,2), of "[e]"] by simp
  moreover have "hist_ok n (step e s)"
    using hist_ok_run[OF Cons.prems(1,3), of "[e]"] by simp
  ultimately show ?case using Cons.IH[of "step e s"] Cons.prems heap_ok_step[of s e] by simp
qed

lemma good_reach: "runs (\<lambda>a. None) p outs r \<Longrightarrow> good n outs (run es (init n [p]))"
  by (simp add: good_run heap_ok_init slot_ok_init hist_ok_init good_init)

lemma output_fixed:
  assumes p: "runs (\<lambda>a. None) p outs r"
  shows "(\<exists>rest. printed (trace (run es (init n [p]))) @ rest = outs)
     \<and> (threads (run es (init n [p])) ! n = Returned \<longrightarrow> printed (trace (run es (init n [p]))) = outs)"
proof -
  let ?s = "run es (init n [p])"
  from good_reach[OF p, of n es] obtain E where len: "length (threads ?s) = Suc n"
    and g: "good_with E outs ?s"
    by (auto simp: good_def)
  from g len have gp: "good_pc E outs (printed (trace ?s)) (threads ?s ! n)"
    by (simp add: good_with_def)
  from hist_ok_reach[of n es "[p]"] len have np: "\<not> is_pool_pc (threads ?s ! n)"
    by (simp add: hist_ok_def hist_at_def)
  show ?thesis
  proof (cases "threads ?s ! n")
    case (Code cx c L)
    with np have "cx = Plain" by simp
    with gp Code show ?thesis by (auto simp: expects_def)
  next
    case Returned
    with gp show ?thesis by simp
  qed (use np in simp_all)
qed

lemma returned_fits:
  assumes p: "runs (\<lambda>a. None) p outs r"
    and t: "t < length (threads (run es (init n [p])))"
    and pc: "threads (run es (init n [p])) ! t = Code (Coroutine a) (Run (Return v)) L"
  shows "- (2 ^ 31) \<le> v \<and> v < 2 ^ 31"
proof -
  let ?s = "run es (init n [p])"
  from good_reach[OF p, of n es] obtain E where g: "good_with E outs ?s"
    by (auto simp: good_def)
  from g t pc have "expects E outs (printed (trace ?s)) (Coroutine a) (Return v)"
    by (auto simp: good_with_def)
  then have "E a = Some (Value v)" by (rule expects_return)
  moreover from g have "good_cell E ?s a" by (simp add: good_with_def)
  ultimately have "fits (Value v)" by (simp add: good_cell_def)
  then show ?thesis by (simp add: fits_def)
qed

section \<open>The demonstration, whatever the interleaving\<close>

lemma runs_async_add: "runs E (async_add a b) [] (Value (a + b))"
  by (simp add: async_add_def runs.Return)

lemma fib_iter_ge: "0 \<le> a \<Longrightarrow> a \<le> b \<Longrightarrow> b \<le> fib_iter n i a b"
proof (induction n i a b rule: fib_iter.induct)
  case (1 n i a b)
  show ?case
  proof (cases "i < n - 2")
    case True
    from "1.IH"[OF True] "1.prems" have "a + b \<le> fib_iter n (i + 1) b (a + b)" by simp
    with True "1.prems" show ?thesis by (subst fib_iter.simps) simp
  next
    case False
    then show ?thesis by (subst fib_iter.simps) simp
  qed
qed

lemma runs_fib_loop:
  "0 \<le> a \<Longrightarrow> a \<le> b \<Longrightarrow> fib_iter n i a b < 2 ^ 31 \<Longrightarrow>
     runs E (fib_loop n i a b) [] (Value (fib_iter n i a b))"
proof (induction n i a b arbitrary: E rule: fib_loop.induct)
  case (1 n i a b)
  show ?case
  proof (cases "i < n - 2")
    case True
    have l: "fib_loop n i a b
        = Call (async_add a b) (\<lambda>c. Get_result c (\<lambda>r. Destroy c (fib_loop n (i + 1) b r)))"
      using True by (subst fib_loop.simps) (simp del: fib_loop.simps)
    have v: "fib_iter n i a b = fib_iter n (i + 1) b (a + b)"
      using True by (subst fib_iter.simps) simp
    from "1.prems" have b: "0 \<le> b" "b \<le> a + b" by simp_all
    from "1.prems" v have small: "fib_iter n (i + 1) b (a + b) < 2 ^ 31" by simp
    have "runs E (Call (async_add a b) (\<lambda>c. Get_result c (\<lambda>r. Destroy c (fib_loop n (i + 1) b r))))
            [] (Value (fib_iter n (i + 1) b (a + b)))"
    proof (rule runs.Call[OF runs_async_add])
      from fib_iter_ge[OF b, of n "i + 1"] small "1.prems" show "fits (Value (a + b))"
        by (simp add: fits_def)
    next
      fix c
      let ?E = "E(c \<mapsto> Value (a + b))"
      have "runs ?E (Destroy c (fib_loop n (i + 1) b (a + b))) [] (Value (fib_iter n (i + 1) b (a + b)))"
        by (rule runs.Destroy) (rule "1.IH"[OF True b small])
      then show "runs ?E (Get_result c (\<lambda>r. Destroy c (fib_loop n (i + 1) b r))) []
                   (Value (fib_iter n (i + 1) b (a + b)))"
        by (rule runs.Get_value[rotated]) simp
    qed
    then show ?thesis by (simp only: l v)
  next
    case False
    have l: "fib_loop n i a b = Return b"
      using False by (subst fib_loop.simps) (simp del: fib_loop.simps)
    have v: "fib_iter n i a b = b"
      using False by (subst fib_iter.simps) simp
    show ?thesis by (simp only: l v runs.Return)
  qed
qed

lemma runs_async_fib:
  assumes "fib_value n < 2 ^ 31"
  shows "runs E (async_fib n) [] (Value (fib_value n))"
proof (cases "n \<le> 2")
  case True
  then show ?thesis by (simp add: async_fib_def fib_value_def runs.Return)
next
  case False
  with assms have "fib_iter n 0 1 1 < 2 ^ 31" by (simp add: fib_value_def)
  from runs_fib_loop[OF _ _ this, of E] False show ?thesis
    by (simp add: async_fib_def fib_value_def del: fib_loop.simps)
qed

lemma fib_value_small:
  assumes "i < 10"
  shows "1 \<le> fib_value i \<and> fib_value i \<le> 34"
proof -
  from assms consider "i \<le> 2" | "i = 3" | "i = 4" | "i = 5" | "i = 6" | "i = 7" | "i = 8" | "i = 9"
    by arith
  then show ?thesis
  proof cases
    case 1
    then show ?thesis by (simp add: fib_value_def)
  qed (simp_all add: fib_value_def fib_iter.simps)
qed

lemma runs_test_loop: "runs E (test_loop i) (report i) (Value 0)"
proof (induction i arbitrary: E rule: test_loop.induct)
  case (1 i)
  show ?case
  proof (cases "i < 10")
    case True
    have l: "test_loop i
        = Call (async_fib i) (\<lambda>t. Get_result t (\<lambda>r. Printf i r (Destroy t (test_loop (i + 1)))))"
      using True by (subst test_loop.simps) (simp del: test_loop.simps)
    have v: "report i = (i, fib_value i) # report (i + 1)"
      using True by (subst report.simps) simp
    from fib_value_small[OF True] have small: "fib_value i < 2 ^ 31" and f: "fits (Value (fib_value i))"
      by (simp_all add: fits_def)
    have "runs E (Call (async_fib i) (\<lambda>t. Get_result t (\<lambda>r. Printf i r (Destroy t (test_loop (i + 1))))))
            ((i, fib_value i) # report (i + 1)) (Value 0)"
    proof (rule runs.Call[OF runs_async_fib[OF small] f])
      fix t
      let ?E = "E(t \<mapsto> Value (fib_value i))"
      have "runs ?E (Printf i (fib_value i) (Destroy t (test_loop (i + 1))))
              ((i, fib_value i) # report (i + 1)) (Value 0)"
        by (rule runs.Printf, rule runs.Destroy) (rule 1[OF True])
      then show "runs ?E (Get_result t (\<lambda>r. Printf i r (Destroy t (test_loop (i + 1)))))
                   ((i, fib_value i) # report (i + 1)) (Value 0)"
        by (rule runs.Get_value[rotated]) simp
    qed
    then show ?thesis by (simp only: l v)
  next
    case False
    have l: "test_loop i = Return 0"
      using False by (subst test_loop.simps) (simp del: test_loop.simps)
    have v: "report i = []"
      using False by (subst report.simps) simp
    show ?thesis by (simp only: l v runs.Return)
  qed
qed

lemma report_1: "report 1 = [(1, 1), (2, 1), (3, 2), (4, 3), (5, 5), (6, 8), (7, 13), (8, 21), (9, 34)]"
  by (simp add: report.simps fib_value_def fib_iter.simps)

lemma runs_test_async_fib:
  "runs E test_async_fib [(1, 1), (2, 1), (3, 2), (4, 3), (5, 5), (6, 8), (7, 13), (8, 21), (9, 34)] (Value 0)"
  using runs_test_loop[of E 1] by (simp only: test_async_fib_def report_1)

lemma runs_test_async_add: "runs E test_async_add [(7, 7)] (Value 0)"
  unfolding test_async_add_def
proof (rule runs.Call[OF runs_async_add])
  show "fits (Value (3 + 4))" by (simp add: fits_def)
next
  fix c
  let ?E = "E(c \<mapsto> Value (3 + 4))"
  have "runs ?E (Printf 7 7 (Destroy c (Return 0))) [(7, 7)] (Value 0)"
    by (intro runs.Printf runs.Destroy runs.Return)
  then have "runs ?E (Get_result c (\<lambda>y. Printf 7 y (Destroy c (Return 0)))) [(7, 7)] (Value 0)"
    by (rule runs.Get_value[rotated]) simp
  then show "runs ?E (Get_result c (\<lambda>x. Get_result c (\<lambda>y. Printf x y (Destroy c (Return 0))))) [(7, 7)] (Value 0)"
    by (rule runs.Get_value[rotated]) simp
qed


section \<open>Runs in which the demonstration returns\<close>

lemma replicate_upto_7:
  "replicate 1 x = [x]" "replicate 2 x = [x, x]" "replicate 3 x = [x, x, x]"
  "replicate 4 x = [x, x, x, x]" "replicate 5 x = [x, x, x, x, x]" "replicate 6 x = [x, x, x, x, x, x]"
  "replicate 7 x = [x, x, x, x, x, x, x]"
  by (simp_all add: eval_nat_numeral)

lemma unfold_test_loop:
  "Run (test_loop i) =
     Run (if i < 10 then Call (async_fib i) (\<lambda>t. Get_result t (\<lambda>r. Printf i r (Destroy t (test_loop (i + 1)))))
          else Return 0)"
  by (subst test_loop.simps) simp

lemma unfold_fib_loop:
  "Run (fib_loop n i a b) =
     Run (if i < n - 2 then Call (async_add a b) (\<lambda>c. Get_result c (\<lambda>r. Destroy c (fib_loop n (i + 1) b r)))
          else Return b)"
  by (subst fib_loop.simps) simp

lemma unfold_async_fib: "Run (async_fib n) = Run (if n \<le> 2 then Return 1 else fib_loop n 0 1 1)"
  by (simp add: async_fib_def)

lemma freed: "m x = None \<Longrightarrow> m(x := None) = m"
  by auto

lemmas served = fib_served_def add_served_def submit_def pick_up_def at_rest_def replicate_upto_7
  replicate_8 unfold_test_loop unfold_fib_loop unfold_async_fib freed

lemma round_1: "\<exists>tr'. run (fib_served 0) (at_rest 0 1 tr) = at_rest 1 2 tr'"
  by (simp add: served exec del: test_loop.simps fib_loop.simps)

lemma round_2: "\<exists>tr'. run (fib_served 0) (at_rest 1 2 tr) = at_rest 2 3 tr'"
  by (simp add: served exec del: test_loop.simps fib_loop.simps)

lemma round_3: "\<exists>tr'. run (fib_served 1) (at_rest 2 3 tr) = at_rest 4 4 tr'"
  by (simp add: served exec del: test_loop.simps fib_loop.simps)

lemma round_4: "\<exists>tr'. run (fib_served 2) (at_rest 4 4 tr) = at_rest 7 5 tr'"
  by (simp add: served exec del: test_loop.simps fib_loop.simps)

lemma round_5: "\<exists>tr'. run (fib_served 3) (at_rest 7 5 tr) = at_rest 11 6 tr'"
  by (simp add: served exec del: test_loop.simps fib_loop.simps)

lemma round_6: "\<exists>tr'. run (fib_served 4) (at_rest 11 6 tr) = at_rest 16 7 tr'"
  by (simp add: served exec del: test_loop.simps fib_loop.simps)

lemma round_7: "\<exists>tr'. run (fib_served 5) (at_rest 16 7 tr) = at_rest 22 8 tr'"
  by (simp add: served exec del: test_loop.simps fib_loop.simps)

lemma round_8: "\<exists>tr'. run (fib_served 6) (at_rest 22 8 tr) = at_rest 29 9 tr'"
  by (simp add: served exec del: test_loop.simps fib_loop.simps)

lemma round_9: "\<exists>tr'. run (fib_served 7) (at_rest 29 9 tr) = at_rest 37 10 tr'"
  by (simp add: served exec del: test_loop.simps fib_loop.simps)

lemma round_10: "threads (run [Step 8] (at_rest 37 10 tr)) ! 8 = Returned"
  by (simp add: served exec del: test_loop.simps fib_loop.simps)

lemma complete_run_returns:
  "threads (run complete_run (init 8 [test_async_fib])) ! 8 = Returned"
proof -
  have "init 8 [test_async_fib] = at_rest 0 1 []"
    by (simp add: init_def at_rest_def test_async_fib_def)
  moreover obtain t1 where "run (fib_served 0) (at_rest 0 1 []) = at_rest 1 2 t1"
    using round_1 by blast
  moreover obtain t2 where "run (fib_served 0) (at_rest 1 2 t1) = at_rest 2 3 t2"
    using round_2 by blast
  moreover obtain t3 where "run (fib_served 1) (at_rest 2 3 t2) = at_rest 4 4 t3"
    using round_3 by blast
  moreover obtain t4 where "run (fib_served 2) (at_rest 4 4 t3) = at_rest 7 5 t4"
    using round_4 by blast
  moreover obtain t5 where "run (fib_served 3) (at_rest 7 5 t4) = at_rest 11 6 t5"
    using round_5 by blast
  moreover obtain t6 where "run (fib_served 4) (at_rest 11 6 t5) = at_rest 16 7 t6"
    using round_6 by blast
  moreover obtain t7 where "run (fib_served 5) (at_rest 16 7 t6) = at_rest 22 8 t7"
    using round_7 by blast
  moreover obtain t8 where "run (fib_served 6) (at_rest 22 8 t7) = at_rest 29 9 t8"
    using round_8 by blast
  moreover obtain t9 where "run (fib_served 7) (at_rest 29 9 t8) = at_rest 37 10 t9"
    using round_9 by blast
  ultimately show ?thesis
    using round_10[of t9] by (simp add: complete_run_def run_append del: run.simps)
qed

lemma add_run_returns:
  "threads (run add_run (init 8 [test_async_add])) ! 8 = Returned"
  by (simp add: add_run_def submit_def pick_up_def test_async_add_def replicate_8 exec)

section \<open>A second write to the result slot\<close>

text \<open>
  C10. A write to a result slot that already holds an outcome \<open>r\<close> is refused with
  \<open>promise_already_satisfied\<close>, by \<open>set_result\<close> as by \<open>set_exception\<close>: in
  \<open>return_value\<close> the exception is thrown inside the body and the step of the coroutine
  leaves the heap as it is; in \<open>unhandled_exception\<close> it ends in \<open>std::terminate\<close>. A
  reader of the slot still gets \<open>r\<close>.
\<close>

theorem second_write_rejected:
  assumes "heap s a = Some st" and "result st = Some r"
    and "t < length (threads s)" and "fault s = None"
    and "threads s ! t = Code (Coroutine a) (Run (Return v)) L"
  shows "set_result v st = Inl Promise_already_satisfied
    \<and> set_exception e (result st) = Inl Promise_already_satisfied
    \<and> return_value a v s = Inr (Inl Promise_already_satisfied)
    \<and> unhandled_exception a e s = Inl Terminate_called
    \<and> thread_step t s =
        Some (s\<lparr>threads := (threads s)[t := Code (Coroutine a) (Run (Throw Promise_already_satisfied)) L]\<rparr>)
    \<and> task_get_result st = future_get (Some r)"
  using assms
  by (simp add: set_result_def set_value_def set_exception_def return_value_def
      unhandled_exception_def get_state_def thread_step_def local_step_def
      task_get_result_def get_result_def)

theorem second_write_rejected_witness:
  "set_result 5 \<lparr>use_count = 1, handle = Some Active, result = Some (Value 7)\<rparr>
      = Inl Promise_already_satisfied
   \<and> heap (the (thread_step 0 written_twice)) 0
      = Some \<lparr>use_count = 1, handle = Some Active, result = Some (Value 7)\<rparr>
   \<and> task_get_result \<lparr>use_count = 1, handle = Some Active, result = Some (Value 7)\<rparr> = Yields 7"
  using second_write_rejected [of written_twice 0
      "\<lparr>use_count = 1, handle = Some Active, result = Some (Value 7)\<rparr>" "Value 7" 0 5 "[]"
      "User_exception 0"]
  by (simp add: written_twice_def future_get_def)

section \<open>The task state outlives its resumption\<close>

text \<open>
  C9. In every reachable state, a thread that is inside the resumed coroutine of the
  task state at \<open>a\<close> (in its body, where \<open>return_value\<close> and \<open>unhandled_exception\<close> call
  \<open>get_state\<close>, or leaving it, where \<open>final_suspend\<close> does) finds the state alive:
  \<open>get_state\<close> yields it, its strong count is positive, and the assertion never fires.
\<close>

theorem state_alive_during_resumption:
  assumes "s = run es (init n ps)" and "t < length (threads s)"
    and "threads s ! t = Code (Coroutine a) c L \<or> threads s ! t = Final_suspend a L"
  shows "(\<exists>st. get_state a s = Some st \<and> 0 < use_count st \<and> handle st = Some Active)
     \<and> fault s \<noteq> Some Assertion_failed"
proof -
  from assms(1) have st: "stable s" by (simp add: stable_reach)
  then have h: "heap_ok s" and f: "fault_ok s" by (simp_all add: stable_def)
  from assms(3) have "0 < running a (threads s ! t)" by auto
  from running_alive[OF h assms(2) this] f show ?thesis
    by (auto simp: get_state_def fault_ok_def)
qed

theorem state_alive_during_resumption_witness:
  "threads (run resumed_after_drop (init 1 [fire_and_forget])) ! 0 = Code (Coroutine 0) (Run (Return 7)) []
   \<and> heap (run resumed_after_drop (init 1 [fire_and_forget])) 0
       = Some \<lparr>use_count = 1, handle = Some Active, result = None\<rparr>
   \<and> (\<exists>st. get_state 0 (run resumed_after_drop (init 1 [fire_and_forget])) = Some st
         \<and> 0 < use_count st \<and> handle st = Some Active)
   \<and> fault (run resumed_after_drop (init 1 [fire_and_forget])) \<noteq> Some Assertion_failed"
proof -
  have pc: "threads (run resumed_after_drop (init 1 [fire_and_forget])) ! 0
      = Code (Coroutine 0) (Run (Return 7)) []"
    by (simp add: resumed_after_drop_def fire_and_forget_def exec)
  have hp: "heap (run resumed_after_drop (init 1 [fire_and_forget])) 0
       = Some \<lparr>use_count = 1, handle = Some Active, result = None\<rparr>"
    by (simp add: resumed_after_drop_def fire_and_forget_def exec)
  have len: "0 < length (threads (run resumed_after_drop (init 1 [fire_and_forget])))"
    by simp
  from state_alive_during_resumption[OF refl len, of 0 "Run (Return 7)" "[]"] pc hp
  show ?thesis by simp
qed

section \<open>The contract of schedule\<close>

text \<open>
  C7. A thread \<open>t\<close> that enters \<open>schedule\<close> with the item \<open>a\<close>, in any reachable state:
  it is blocked exactly while another thread holds the mutex; once it has the mutex no
  other thread can change the queue; its push appends \<open>a\<close> at the tail while it holds
  the mutex; and its four steps together leave the state as it was but for the queue
  (the old queue, then \<open>a\<close>), one push and one notification in the trace, and the thread
  back in its caller.
\<close>

theorem schedule_contract:
  assumes reach: "s = run es (init n ps)" and en: "t < length (threads s)" and nf: "fault s = None"
    and pc: "threads s ! t = Code cx (Lock_guard a c) L"
  shows "(thread_step t s = None) = (mutex s \<noteq> None)
    \<and> (mutex s = None \<longrightarrow>
         mutex (run [Step t] s) = Some t
       \<and> queue (run [Step t] s) = queue s
       \<and> (\<forall>u s'. thread_step u (run [Step t] s) = Some s' \<and> queue s' \<noteq> queue s \<longrightarrow> u = t)
       \<and> mutex (run [Step t, Step t] s) = Some t
       \<and> queue (run [Step t, Step t] s) = queue s @ [a]
       \<and> run [Step t, Step t, Step t, Step t] s
           = s\<lparr>queue := queue s @ [a], trace := trace s @ [Pushed t a, Notified t],
               threads := (threads s)[t := Code cx (Run c) L]\<rparr>)"
proof (intro conjI impI)
  show "(thread_step t s = None) = (mutex s \<noteq> None)"
    using en nf pc by (simp add: thread_step_def local_step_def in_schedule_def)
next
  assume free: "mutex s = None"
  have s1: "run [Step t] s = s\<lparr>mutex := Some t, threads := (threads s)[t := Code cx (Push a c) L]\<rparr>"
    using en nf pc free by (simp add: thread_step_def local_step_def in_schedule_def)
  show "mutex (run [Step t] s) = Some t" and "queue (run [Step t] s) = queue s"
    unfolding s1 by simp_all
  have "run [Step t] s = run (es @ [Step t]) (init n ps)"
    by (simp add: reach run_append)
  then have "pool_ok (run [Step t] s)"
    using stable_reach[of "es @ [Step t]" n ps] by (simp add: stable_def)
  then show "\<forall>u s'. thread_step u (run [Step t] s) = Some s' \<and> queue s' \<noteq> queue s \<longrightarrow> u = t"
    using queue_change_holder[of "run [Step t] s"] unfolding s1 by auto
  have s2: "run [Step t, Step t] s
      = s\<lparr>mutex := Some t, queue := queue s @ [a], trace := trace s @ [Pushed t a],
          threads := (threads s)[t := Code cx (Unlock_guard c) L]\<rparr>"
    using en nf pc free by (simp add: thread_step_def local_step_def in_schedule_def emit_def)
  show "mutex (run [Step t, Step t] s) = Some t" and "queue (run [Step t, Step t] s) = queue s @ [a]"
    unfolding s2 by simp_all
  show "run [Step t, Step t, Step t, Step t] s
      = s\<lparr>queue := queue s @ [a], trace := trace s @ [Pushed t a, Notified t],
          threads := (threads s)[t := Code cx (Run c) L]\<rparr>"
    using en nf pc free by (simp add: thread_step_def local_step_def in_schedule_def emit_def)
qed

theorem schedule_contract_witness:
  "threads (run [Step 1, Step 1] (init 1 [one_submission])) ! 1
      = Code Plain (Lock_guard 0 (Get_result 0 (\<lambda>r. Destroy 0 (Return r)))) [0]
   \<and> mutex (run [Step 1, Step 1] (init 1 [one_submission])) = None
   \<and> queue (run [Step 1, Step 1, Step 1, Step 1, Step 1, Step 1] (init 1 [one_submission])) = [0]
   \<and> trace (run [Step 1, Step 1, Step 1, Step 1, Step 1, Step 1] (init 1 [one_submission]))
      = [Pushed 1 0, Notified 1]"
proof -
  let ?s = "run [Step 1, Step 1] (init 1 [one_submission])"
  have pc: "threads ?s ! 1 = Code Plain (Lock_guard 0 (Get_result 0 (\<lambda>r. Destroy 0 (Return r)))) [0]"
    by (simp add: one_submission_def exec)
  have free: "mutex ?s = None" and nf: "fault ?s = None" and q: "queue ?s = []" and tr: "trace ?s = []"
    by (simp_all add: one_submission_def exec)
  have len: "1 < length (threads ?s)"
    by (simp only: length_threads_run length_threads_init) simp
  have "run [Step 1, Step 1, Step 1, Step 1, Step 1, Step 1] (init 1 [one_submission])
      = run [Step 1, Step 1, Step 1, Step 1] ?s"
    by simp
  with schedule_contract[OF refl len nf pc] free pc q tr show ?thesis by simp
qed

section \<open>The worker loop\<close>

text \<open>
  C4, as the code has it. In every reachable state, for a step of a worker \<open>t\<close>:
  it takes the mutex when it is free; holding it, it tests the queue; on an empty queue
  it leaves the wait at once if stop is requested, else it gives the mutex up and stays
  blocked until the mutex is free and stop is requested or the queue is not empty; after
  the wait it ends the loop when stop is requested, whatever the queue holds, and
  releases the mutex; otherwise, and whenever it found the queue not empty, it takes
  exactly the head of the queue (which is there), releases the mutex, and resumes the
  item without holding the mutex; then it starts over. A thread becomes \<open>Exited\<close> by no
  other step.
\<close>

theorem worker_loop:
  assumes reach: "s = run es (init n ps)" and en: "t < length (threads s)" and nf: "fault s = None"
  shows
    "(threads s ! t = Acquire \<longrightarrow>
        thread_step t s =
          (if mutex s = None then Some (s\<lparr>mutex := Some t, threads := (threads s)[t := Test_empty]\<rparr>)
           else None))
   \<and> (threads s ! t = Test_empty \<longrightarrow>
        mutex s = Some t
      \<and> thread_step t s =
          (if queue s \<noteq> [] then Some (s\<lparr>threads := (threads s)[t := Take]\<rparr>)
           else if stop_requested s t then Some (s\<lparr>threads := (threads s)[t := Test_stop]\<rparr>)
           else Some (s\<lparr>mutex := None, threads := (threads s)[t := Cv_wait]\<rparr>)))
   \<and> (threads s ! t = Cv_wait \<longrightarrow>
        mutex s \<noteq> Some t
      \<and> thread_step t s =
          (if mutex s = None \<and> (stop_requested s t \<or> queue s \<noteq> [])
           then Some (s\<lparr>mutex := Some t, threads := (threads s)[t := Test_stop]\<rparr>)
           else None))
   \<and> (threads s ! t = Test_stop \<longrightarrow>
        mutex s = Some t \<and> (stop_requested s t \<or> queue s \<noteq> [])
      \<and> thread_step t s =
          (if stop_requested s t
           then Some (s\<lparr>mutex := None, trace := trace s @ [Left t], threads := (threads s)[t := Exited]\<rparr>)
           else Some (s\<lparr>threads := (threads s)[t := Take]\<rparr>)))
   \<and> (threads s ! t = Take \<longrightarrow>
        mutex s = Some t
      \<and> (\<exists>a q. queue s = a # q
            \<and> thread_step t s = Some (s\<lparr>queue := q, threads := (threads s)[t := Release a]\<rparr>)))
   \<and> (\<forall>a. threads s ! t = Release a \<longrightarrow>
        mutex s = Some t
      \<and> thread_step t s = Some (s\<lparr>mutex := None, threads := (threads s)[t := Execute a]\<rparr>))
   \<and> (\<forall>a. threads s ! t = Execute a \<longrightarrow>
        mutex s \<noteq> Some t
      \<and> (\<exists>st b. heap s a = Some st \<and> handle st = Some (Suspended b)
            \<and> thread_step t s =
                Some (s\<lparr>heap := (heap s)(a \<mapsto> st\<lparr>handle := Some Active\<rparr>),
                        trace := trace s @ [Resumed t a],
                        threads := (threads s)[t := Code (Coroutine a) (Run b) []]\<rparr>)))
   \<and> (\<forall>a. threads s ! t = End_iteration a \<longrightarrow>
        mutex s \<noteq> Some t
      \<and> thread_step t s = Some ((release a s)\<lparr>threads := (threads s)[t := Acquire]\<rparr>))
   \<and> (\<forall>s'. thread_step t s = Some s' \<and> threads s' ! t = Exited \<longrightarrow>
        threads s ! t = Test_stop \<and> stop_requested s t)"
proof -
  from reach have st: "stable s" by (simp add: stable_reach)
  then have h: "heap_ok s" and m: "mutex_at s t" and q: "queue_at s t"
    by (simp_all add: stable_def pool_ok_def)
  have acquire: "threads s ! t = Acquire \<longrightarrow>
        thread_step t s =
          (if mutex s = None then Some (s\<lparr>mutex := Some t, threads := (threads s)[t := Test_empty]\<rparr>)
           else None)"
    using en nf by (simp add: thread_step_def local_step_def)
  have test_empty: "threads s ! t = Test_empty \<longrightarrow>
        mutex s = Some t
      \<and> thread_step t s =
          (if queue s \<noteq> [] then Some (s\<lparr>threads := (threads s)[t := Take]\<rparr>)
           else if stop_requested s t then Some (s\<lparr>threads := (threads s)[t := Test_stop]\<rparr>)
           else Some (s\<lparr>mutex := None, threads := (threads s)[t := Cv_wait]\<rparr>))"
    using en nf m by (simp add: thread_step_def local_step_def mutex_at_def)
  have cv_wait: "threads s ! t = Cv_wait \<longrightarrow>
        mutex s \<noteq> Some t
      \<and> thread_step t s =
          (if mutex s = None \<and> (stop_requested s t \<or> queue s \<noteq> [])
           then Some (s\<lparr>mutex := Some t, threads := (threads s)[t := Test_stop]\<rparr>)
           else None)"
    using en nf m by (simp add: thread_step_def local_step_def mutex_at_def)
  have test_stop: "threads s ! t = Test_stop \<longrightarrow>
        mutex s = Some t \<and> (stop_requested s t \<or> queue s \<noteq> [])
      \<and> thread_step t s =
          (if stop_requested s t
           then Some (s\<lparr>mutex := None, trace := trace s @ [Left t], threads := (threads s)[t := Exited]\<rparr>)
           else Some (s\<lparr>threads := (threads s)[t := Take]\<rparr>))"
    using en nf m q by (auto simp: thread_step_def local_step_def mutex_at_def queue_at_def emit_def)
  have take: "threads s ! t = Take \<longrightarrow>
        mutex s = Some t
      \<and> (\<exists>a q. queue s = a # q
            \<and> thread_step t s = Some (s\<lparr>queue := q, threads := (threads s)[t := Release a]\<rparr>))"
    using en nf m q
    by (cases "queue s") (auto simp: thread_step_def local_step_def mutex_at_def queue_at_def)
  have release: "\<forall>a. threads s ! t = Release a \<longrightarrow>
        mutex s = Some t
      \<and> thread_step t s = Some (s\<lparr>mutex := None, threads := (threads s)[t := Execute a]\<rparr>)"
    using en nf m by (simp add: thread_step_def local_step_def mutex_at_def)
  have execute: "\<forall>a. threads s ! t = Execute a \<longrightarrow>
        mutex s \<noteq> Some t
      \<and> (\<exists>st b. heap s a = Some st \<and> handle st = Some (Suspended b)
            \<and> thread_step t s =
                Some (s\<lparr>heap := (heap s)(a \<mapsto> st\<lparr>handle := Some Active\<rparr>),
                        trace := trace s @ [Resumed t a],
                        threads := (threads s)[t := Code (Coroutine a) (Run b) []]\<rparr>))"
  proof (intro allI impI)
    fix a
    assume pc: "threads s ! t = Execute a"
    then have "0 < sched a (threads s ! t)" by simp
    from sched_alive[OF h en this] obtain st b where
      "heap s a = Some st" "handle st = Some (Suspended b)" by blast
    with pc en nf m show "mutex s \<noteq> Some t
      \<and> (\<exists>st b. heap s a = Some st \<and> handle st = Some (Suspended b)
            \<and> thread_step t s =
                Some (s\<lparr>heap := (heap s)(a \<mapsto> st\<lparr>handle := Some Active\<rparr>),
                        trace := trace s @ [Resumed t a],
                        threads := (threads s)[t := Code (Coroutine a) (Run b) []]\<rparr>))"
      by (simp add: thread_step_def local_step_def mutex_at_def execute_def emit_def)
  qed
  have end_iteration: "\<forall>a. threads s ! t = End_iteration a \<longrightarrow>
        mutex s \<noteq> Some t
      \<and> thread_step t s = Some ((release a s)\<lparr>threads := (threads s)[t := Acquire]\<rparr>)"
    using en nf m by (simp add: thread_step_def local_step_def mutex_at_def)
  have exits: "\<forall>s'. thread_step t s = Some s' \<and> threads s' ! t = Exited \<longrightarrow>
        threads s ! t = Test_stop \<and> stop_requested s t"
  proof (intro allI impI, elim conjE)
    fix s'
    assume step: "thread_step t s = Some s'" and ex: "threads s' ! t = Exited"
    from step show "threads s ! t = Test_stop \<and> stop_requested s t"
    proof (cases rule: thread_step_kinds)
      case (worker p' s0)
      then show ?thesis
        by (cases rule: worker_stepE) (use ex en nf in simp_all)
    next
      case (code cx c L p' s0)
      then show ?thesis
        by (cases rule: code_stepE) (use ex en nf code(3) in simp_all)
    next
      case (leave a L p' s0)
      then show ?thesis
        by (cases rule: leave_stepE) (use ex en nf leave(3) in simp_all)
    qed
  qed
  show ?thesis
    by (intro conjI) (fact acquire test_empty cv_wait test_stop take release execute end_iteration exits)+
qed


theorem worker_loop_witness:
  "threads item_queued ! 0 = Take
   \<and> mutex item_queued = Some 0
   \<and> queue item_queued = [0]
   \<and> thread_step 0 item_queued
       = Some (item_queued\<lparr>queue := [], threads := (threads item_queued)[0 := Release 0]\<rparr>)"
proof -
  have reach: "item_queued
      = run [Step 0, Step 0, Step 8, Step 8, Step 8, Step 8, Step 8, Step 8, Step 0, Step 0]
          (init DEFAULT_CONCURRENCY_LEVEL [fire_and_forget])"
    by (simp only: item_queued_def)
  have pc: "threads item_queued ! 0 = Take" and nf: "fault item_queued = None"
    and q: "queue item_queued = [0]"
    by (simp_all add: item_queued_def fire_and_forget_def DEFAULT_CONCURRENCY_LEVEL_def replicate_8 exec)
  have len: "0 < length (threads item_queued)"
    by (simp only: item_queued_def length_threads_run length_threads_init)
      (simp add: DEFAULT_CONCURRENCY_LEVEL_def)
  from worker_loop[OF reach len nf]
  have "threads item_queued ! 0 = Take \<longrightarrow>
      mutex item_queued = Some 0
    \<and> (\<exists>a q. queue item_queued = a # q
          \<and> thread_step 0 item_queued
              = Some (item_queued\<lparr>queue := q, threads := (threads item_queued)[0 := Release a]\<rparr>))"
    by (elim conjE)
  with pc q show ?thesis by auto
qed

text \<open>
  The claim as stated fails: with the pool's eight workers and one caller that creates a
  task and returns, worker 0 waits on the empty queue, the caller submits the item, stop
  is requested, and worker 0 wakes and ends its loop while the queue holds the item.
\<close>

theorem worker_exit_counterexample:
  "threads (run abandoned_item (init DEFAULT_CONCURRENCY_LEVEL [fire_and_forget])) ! 0 = Test_stop
   \<and> stop_requested (run abandoned_item (init DEFAULT_CONCURRENCY_LEVEL [fire_and_forget])) 0
   \<and> queue (run abandoned_item (init DEFAULT_CONCURRENCY_LEVEL [fire_and_forget])) = [0]
   \<and> threads (step (Step 0) (run abandoned_item (init DEFAULT_CONCURRENCY_LEVEL [fire_and_forget]))) ! 0
       = Exited
   \<and> queue (step (Step 0) (run abandoned_item (init DEFAULT_CONCURRENCY_LEVEL [fire_and_forget]))) = [0]"
  by (simp add: abandoned_item_def fire_and_forget_def DEFAULT_CONCURRENCY_LEVEL_def replicate_8 exec)

section \<open>Single delivery\<close>




section \<open>A failure stays in the slot of its own task\<close>

text \<open>
  C3. In every reachable state, a coroutine whose body has thrown \<open>e\<close> first destroys
  the task variables in scope, which changes the outcome of no task state that stays
  alive; then \<open>unhandled_exception\<close> finds the state of the task alive and its slot
  empty, and stores \<open>e\<close> there: the heap changes at the address of this task only.
  In any state, every retrieval from a slot that holds the failure \<open>e\<close> rethrows \<open>e\<close>
  in the retrieving thread.
\<close>

theorem failure_isolated:
  assumes reach: "s = run es (init n ps)" and en: "t < length (threads s)" and nf: "fault s = None"
    and pc: "threads s ! t = Code (Coroutine a) (Run (Throw e)) L"
  shows "(\<exists>st. heap s a = Some st \<and> result st = None
          \<and> (case L of
                x # L' \<Rightarrow>
                  thread_step t s
                    = Some ((release x s)\<lparr>threads := (threads s)[t := Code (Coroutine a) (Run (Throw e)) L']\<rparr>)
                  \<and> (\<forall>y st'. heap (release x s) y = Some st' \<longrightarrow>
                        (\<exists>st0. heap s y = Some st0 \<and> result st' = result st0))
              | [] \<Rightarrow>
                  thread_step t s
                    = Some (s\<lparr>heap := (heap s)(a \<mapsto> st\<lparr>result := Some (Failure e)\<rparr>),
                             trace := trace s @ [Wrote a (Failure e)],
                             threads := (threads s)[t := Final_suspend a []]\<rparr>)
                  \<and> task_get_result (st\<lparr>result := Some (Failure e)\<rparr>) = Rethrows e))
     \<and> (\<forall>s' u cx k L' st'.
           u < length (threads s') \<and> fault s' = None
           \<and> threads s' ! u = Code cx (Run (Get_result a k)) L'
           \<and> heap s' a = Some st' \<and> result st' = Some (Failure e) \<longrightarrow>
           thread_step u s'
             = Some (s'\<lparr>trace := trace s' @ [Got u a (Failure e)],
                       threads := (threads s')[u := Code cx (Run (Throw e)) L']\<rparr>))"
proof (intro conjI allI impI)
  from reach have h: "heap_ok s" and sl: "slot_ok s"
    using stable_reach[of es n ps] by (simp_all add: stable_def slot_ok_reach)
  from pc have "0 < running a (threads s ! t)" by simp
  from running_alive[OF h en this] obtain st where st: "heap s a = Some st" by blast
  with sl en pc have none: "result st = None" by (auto simp: slot_ok_def slot_at_def)
  show "\<exists>st. heap s a = Some st \<and> result st = None
          \<and> (case L of
                x # L' \<Rightarrow>
                  thread_step t s
                    = Some ((release x s)\<lparr>threads := (threads s)[t := Code (Coroutine a) (Run (Throw e)) L']\<rparr>)
                  \<and> (\<forall>y st'. heap (release x s) y = Some st' \<longrightarrow>
                        (\<exists>st0. heap s y = Some st0 \<and> result st' = result st0))
              | [] \<Rightarrow>
                  thread_step t s
                    = Some (s\<lparr>heap := (heap s)(a \<mapsto> st\<lparr>result := Some (Failure e)\<rparr>),
                             trace := trace s @ [Wrote a (Failure e)],
                             threads := (threads s)[t := Final_suspend a []]\<rparr>)
                  \<and> task_get_result (st\<lparr>result := Some (Failure e)\<rparr>) = Rethrows e)"
  proof (cases L)
    case Nil
    with st none en nf pc show ?thesis
      by (simp add: thread_step_def local_step_def unhandled_exception_def get_state_def
          set_exception_def emit_def task_get_result_def get_result_def future_get_def)
  next
    case (Cons x L')
    have "\<exists>st0. heap s y = Some st0 \<and> result st' = result st0"
      if "heap (release x s) y = Some st'" for y st'
      using heap_release[OF that] by blast
    with Cons st none en nf pc show ?thesis
      by (simp add: thread_step_def local_step_def)
  qed
next
  fix s' :: sys and u cx k L' st'
  assume "u < length (threads s') \<and> fault s' = None
           \<and> threads s' ! u = Code cx (Run (Get_result a k)) L'
           \<and> heap s' a = Some st' \<and> result st' = Some (Failure e)"
  then show "thread_step u s'
             = Some (s'\<lparr>trace := trace s' @ [Got u a (Failure e)],
                       threads := (threads s')[u := Code cx (Run (Throw e)) L']\<rparr>)"
    by (simp add: thread_step_def local_step_def emit_def task_get_result_def get_result_def
        future_get_def)
qed

theorem failure_isolated_witness:
  "threads failure_raised ! 0 = Code (Coroutine 0) (Run (Throw (User_exception 1))) []
   \<and> heap failure_raised 0 = Some \<lparr>use_count = 2, handle = Some Active, result = None\<rparr>
   \<and> thread_step 0 failure_raised
       = Some (failure_raised\<lparr>heap := (heap failure_raised)
                   (0 \<mapsto> \<lparr>use_count = 2, handle = Some Active, result = Some (Failure (User_exception 1))\<rparr>),
                 trace := trace failure_raised @ [Wrote 0 (Failure (User_exception 1))],
                 threads := (threads failure_raised)[0 := Final_suspend 0 []]\<rparr>)
   \<and> threads (run [Step 0, Step 1] failure_raised) ! 1
       = Code Plain (Run (Throw (User_exception 1))) [0]"
proof -
  have r: "failure_raised =
     run [Step 1, Step 1, Step 1, Step 1, Step 1, Step 1,
          Step 0, Step 0, Step 0, Step 0, Step 0]
       (init 1 [failing_task])"
    by (simp only: failure_raised_def)
  have len: "0 < length (threads failure_raised)"
    by (simp add: failure_raised_def del: run.simps)
  have nf: "fault failure_raised = None"
    and pc: "threads failure_raised ! 0 = Code (Coroutine 0) (Run (Throw (User_exception 1))) []"
    and hp: "heap failure_raised 0 = Some \<lparr>use_count = 2, handle = Some Active, result = None\<rparr>"
    by (simp_all add: failure_raised_def failing_task_def exec)
  have after: "threads (run [Step 0, Step 1] failure_raised) ! 1
       = Code Plain (Run (Throw (User_exception 1))) [0]"
    by (simp add: failure_raised_def failing_task_def exec)
  from failure_isolated[OF r len nf pc] hp
  have "thread_step 0 failure_raised
       = Some (failure_raised\<lparr>heap := (heap failure_raised)
                   (0 \<mapsto> \<lparr>use_count = 2, handle = Some Active, result = Some (Failure (User_exception 1))\<rparr>),
                 trace := trace failure_raised @ [Wrote 0 (Failure (User_exception 1))],
                 threads := (threads failure_raised)[0 := Final_suspend 0 []]\<rparr>)"
    by simp
  with pc hp after show ?thesis by simp
qed

section \<open>No resumption of a completed coroutine\<close>

text \<open>
  C2. In every run: no task state is resumed twice, and a completion follows the
  resumption of its task, so nothing is resumed after it has completed; \<open>resume\<close> is
  never called on a null or running handle; a worker about to call \<open>execute\<close> finds the
  handle referring to a suspended coroutine of a task that has not completed; and the
  handle of a completed task is null, while no entry of the queue and no worker refers
  to that task for a resumption.
\<close>

theorem no_double_resume:
  assumes "s = run es (init n ps)"
  shows "resume_once [] (trace s) \<and> distinct (resumed (trace s))
     \<and> fault s \<noteq> Some Resume_invalid_handle
     \<and> (\<forall>t a. t < length (threads s) \<and> threads s ! t = Execute a \<longrightarrow>
           (\<exists>st b. heap s a = Some st \<and> handle st = Some (Suspended b))
         \<and> a \<notin> set (resumed (trace s)) \<and> a \<notin> set (completed (trace s)))
     \<and> (\<forall>a st. a \<in> set (completed (trace s)) \<and> heap s a = Some st \<longrightarrow>
           handle st = None \<and> a \<notin> set (queue s)
         \<and> (\<forall>t. t < length (threads s) \<longrightarrow>
               threads s ! t \<noteq> Release a \<and> threads s ! t \<noteq> Execute a))"
proof -
  from assms have st: "stable s" and hi: "hist_ok n s"
    by (simp_all add: stable_reach hist_ok_reach)
  then have h: "heap_ok s" and f: "fault_ok s" and hc: "\<And>a. hist_cell s a"
    and ro: "resume_once [] (trace s)"
    by (simp_all add: stable_def hist_ok_def)
  from resume_once_distinct[OF ro] have d: "distinct (resumed (trace s))" by simp
  have ex: "(\<exists>st b. heap s a = Some st \<and> handle st = Some (Suspended b))
         \<and> a \<notin> set (resumed (trace s)) \<and> a \<notin> set (completed (trace s))"
    if "t < length (threads s)" and "threads s ! t = Execute a" for t a
  proof -
    from that have "0 < sched a (threads s ! t)" by simp
    from sched_alive[OF h that(1) this] obtain st b where
      "heap s a = Some st" "handle st = Some (Suspended b)" by blast
    with hc[of a] show ?thesis by (auto simp: hist_cell_def)
  qed
  have co: "handle st = None \<and> a \<notin> set (queue s)
         \<and> (\<forall>t. t < length (threads s) \<longrightarrow>
               threads s ! t \<noteq> Release a \<and> threads s ! t \<noteq> Execute a)"
    if "a \<in> set (completed (trace s))" and "heap s a = Some st" for a st
  proof -
    from hc[of a] that have n: "handle st = None" by (simp add: hist_cell_def)
    from h have "cell_ok s a" by (simp add: heap_ok_def)
    with that n have z: "count_list (queue s) a = 0" "total (sched a) (threads s) = 0"
      by (simp_all add: cell_ok_def pend_def)
    have "threads s ! t \<noteq> Release a \<and> threads s ! t \<noteq> Execute a" if "t < length (threads s)" for t
      using total_nth_le[OF that, of "sched a"] z(2) by auto
    with n count_list_0[OF z(1)] show ?thesis by simp
  qed
  from f have nf: "fault s \<noteq> Some Resume_invalid_handle" by (auto simp: fault_ok_def)
  from ro d nf ex co show ?thesis by blast
qed

theorem no_double_resume_witness:
  "resumed (trace task_completed) = [0] \<and> completed (trace task_completed) = [0]
   \<and> resume_once [] (trace task_completed)
   \<and> heap task_completed 0 = Some \<lparr>use_count = 2, handle = None, result = Some (Value 7)\<rparr>
   \<and> queue task_completed = []
   \<and> threads task_completed ! 0 = End_iteration 0"
proof -
  have r: "task_completed =
     run [Step 1, Step 1, Step 1, Step 1, Step 1, Step 1,
          Step 0, Step 0, Step 0, Step 0, Step 0, Step 0, Step 0]
       (init 1 [one_submission])"
    by (simp only: task_completed_def)
  have tr: "trace task_completed
      = [Pushed 1 0, Notified 1, Resumed 0 0, Wrote 0 (Value 7), Completed 0 0]"
    and hp: "heap task_completed 0 = Some \<lparr>use_count = 2, handle = None, result = Some (Value 7)\<rparr>"
    and q: "queue task_completed = []"
    and pc: "threads task_completed ! 0 = End_iteration 0"
    by (simp_all add: task_completed_def one_submission_def exec)
  from no_double_resume[OF r] have "resume_once [] (trace task_completed)" by (elim conjE)
  with tr hp q pc show ?thesis by simp
qed

section \<open>A task is handed to the pool when it is created\<close>

text \<open>
  C5. In every reachable state, a thread \<open>t\<close> that calls a coroutine function with body
  \<open>b\<close>: the address of the new task state is unused, in no queue entry and never pushed;
  the first two steps of \<open>t\<close> create the state, holding the suspended coroutine before
  any of \<open>b\<close> has run, and enter \<open>schedule\<close>; with the mutex free, six steps of \<open>t\<close>
  end in the caller, holding the handle, with the state pushed once at the tail of the
  queue and one notification, nothing resumed and the slot empty. In every run no
  address is pushed twice, and every resumption is made by a worker of the pool, of an
  address pushed before.
\<close>

theorem scheduled_at_creation:
  assumes reach: "s = run es (init n ps)" and en: "t < length (threads s)" and nf: "fault s = None"
    and pc: "threads s ! t = Code cx (Run (Call b k)) L"
  shows "heap s (fresh s) = None \<and> fresh s \<notin> set (queue s) \<and> fresh s \<notin> set (pushed (trace s))
     \<and> run [Step t, Step t] s
         = s\<lparr>heap := (heap s)(fresh s \<mapsto> \<lparr>use_count = 2, handle = Some (Suspended b), result = None\<rparr>),
             fresh := Suc (fresh s),
             threads := (threads s)[t := Code cx (Lock_guard (fresh s) (k (fresh s))) (fresh s # L)]\<rparr>
     \<and> (mutex s = None \<longrightarrow>
          run [Step t, Step t, Step t, Step t, Step t, Step t] s
            = s\<lparr>heap := (heap s)(fresh s \<mapsto> \<lparr>use_count = 2, handle = Some (Suspended b), result = None\<rparr>),
                fresh := Suc (fresh s),
                queue := queue s @ [fresh s],
                trace := trace s @ [Pushed t (fresh s), Notified t],
                threads := (threads s)[t := Code cx (Run (k (fresh s))) (fresh s # L)]\<rparr>)
     \<and> handover n [] (trace s) \<and> distinct (pushed (trace s))"
proof -
  from reach have st: "stable s" and hi: "hist_ok n s"
    by (simp_all add: stable_reach hist_ok_reach)
  then have h: "heap_ok s" and hc: "hist_cell s (fresh s)" and ho: "handover n [] (trace s)"
    by (simp_all add: stable_def hist_ok_def)
  from h have c: "cell_ok s (fresh s)" by (simp add: heap_ok_def)
  then have unused: "heap s (fresh s) = None"
    by (auto simp: cell_ok_def split: option.splits)
  with c have "count_list (queue s) (fresh s) = 0" by (simp add: cell_ok_def pend_def)
  then have nq: "fresh s \<notin> set (queue s)" by (rule count_list_0)
  from hc have "count_list (pushed (trace s)) (fresh s) = 0" by (simp add: hist_cell_def)
  then have np: "fresh s \<notin> set (pushed (trace s))" by (rule count_list_0)
  have two: "run [Step t, Step t] s
         = s\<lparr>heap := (heap s)(fresh s \<mapsto> \<lparr>use_count = 2, handle = Some (Suspended b), result = None\<rparr>),
             fresh := Suc (fresh s),
             threads := (threads s)[t := Code cx (Lock_guard (fresh s) (k (fresh s))) (fresh s # L)]\<rparr>"
    using en nf pc
    by (auto simp: thread_step_def local_step_def get_return_object_def await_suspend_def get_state_def
        intro!: sys.equality)
  have six: "run [Step t, Step t, Step t, Step t, Step t, Step t] s
            = s\<lparr>heap := (heap s)(fresh s \<mapsto> \<lparr>use_count = 2, handle = Some (Suspended b), result = None\<rparr>),
                fresh := Suc (fresh s),
                queue := queue s @ [fresh s],
                trace := trace s @ [Pushed t (fresh s), Notified t],
                threads := (threads s)[t := Code cx (Run (k (fresh s))) (fresh s # L)]\<rparr>"
    if "mutex s = None"
    using en nf pc that
    by (auto simp: thread_step_def local_step_def get_return_object_def await_suspend_def get_state_def
        in_schedule_def emit_def intro!: sys.equality)
  from handover_distinct[OF ho] have "distinct (pushed (trace s))" by simp
  with unused nq np two six ho show ?thesis by simp
qed

theorem scheduled_at_creation_witness:
  "threads before_creation ! 1
      = Code Plain (Run (Call (async_add 3 4) (\<lambda>c. Get_result c (\<lambda>r. Destroy c (Return r))))) []
   \<and> fresh before_creation = 0 \<and> queue before_creation = [] \<and> trace before_creation = []
   \<and> run [Step 1, Step 1, Step 1, Step 1, Step 1, Step 1] before_creation
      = before_creation
          \<lparr>heap := (heap before_creation)
              (0 \<mapsto> \<lparr>use_count = 2, handle = Some (Suspended (async_add 3 4)), result = None\<rparr>),
           fresh := Suc 0,
           queue := [] @ [0],
           trace := [] @ [Pushed 1 0, Notified 1],
           threads := (threads before_creation)
              [1 := Code Plain (Run (Get_result 0 (\<lambda>r. Destroy 0 (Return r)))) (0 # [])]\<rparr>"
proof -
  have r: "before_creation = run [] (init 1 [one_submission])"
    by (simp add: before_creation_def)
  have len: "1 < length (threads before_creation)"
    by (simp add: before_creation_def)
  have nf: "fault before_creation = None" and m: "mutex before_creation = None"
    and fr: "fresh before_creation = 0" and q: "queue before_creation = []"
    and tr: "trace before_creation = []"
    by (simp_all add: before_creation_def init_def)
  have pc: "threads before_creation ! 1
      = Code Plain (Run (Call (async_add 3 4) (\<lambda>c. Get_result c (\<lambda>r. Destroy c (Return r))))) []"
    by (simp add: before_creation_def init_def one_submission_def)
  from scheduled_at_creation[OF r len nf pc]
  have "mutex before_creation = None \<longrightarrow>
          run [Step 1, Step 1, Step 1, Step 1, Step 1, Step 1] before_creation
            = before_creation
                \<lparr>heap := (heap before_creation)(fresh before_creation \<mapsto>
                    \<lparr>use_count = 2, handle = Some (Suspended (async_add 3 4)), result = None\<rparr>),
                fresh := Suc (fresh before_creation),
                queue := queue before_creation @ [fresh before_creation],
                trace := trace before_creation @ [Pushed 1 (fresh before_creation), Notified 1],
                threads := (threads before_creation)
                  [1 := Code Plain (Run (Get_result (fresh before_creation) (\<lambda>r. Destroy (fresh before_creation) (Return r))))
                     (fresh before_creation # [])]\<rparr>"
    by (elim conjE)
  with m have "run [Step 1, Step 1, Step 1, Step 1, Step 1, Step 1] before_creation
            = before_creation
                \<lparr>heap := (heap before_creation)(fresh before_creation \<mapsto>
                    \<lparr>use_count = 2, handle = Some (Suspended (async_add 3 4)), result = None\<rparr>),
                fresh := Suc (fresh before_creation),
                queue := queue before_creation @ [fresh before_creation],
                trace := trace before_creation @ [Pushed 1 (fresh before_creation), Notified 1],
                threads := (threads before_creation)
                  [1 := Code Plain (Run (Get_result (fresh before_creation) (\<lambda>r. Destroy (fresh before_creation) (Return r))))
                     (fresh before_creation # [])]\<rparr>"
    by (rule rev_mp)
  then show ?thesis unfolding fr q tr using pc fr q tr by (simp only: simp_thms)
qed

section \<open>First in, first out under a single worker\<close>

text \<open>
  C6. With one worker, every run serves the queue first in, first out and one item at
  a time: its trace replays with each resumption taking the oldest item pushed and not
  yet resumed, while no item is in execution. So when an item \<open>b\<close> is resumed, every
  item pushed before \<open>b\<close> has been resumed and has completed before.
\<close>

theorem fifo_single_worker:
  assumes "s = run es (init 1 ps)"
  shows "fifo [] None (trace s)
     \<and> (\<forall>tr1 tr2 t b i j.
           trace s = tr1 @ Resumed t b # tr2
           \<and> i < j \<and> j < length (pushed (trace s)) \<and> pushed (trace s) ! j = b \<longrightarrow>
           pushed (trace s) ! i \<in> set (completed tr1))"
proof (intro conjI allI impI)
  from assms have f: "fifo [] None (trace s)" and ho: "handover 1 [] (trace s)"
    using fifo_ok_reach[of es ps] hist_ok_reach[of 1 es ps] by (simp_all add: fifo_ok_def hist_ok_def)
  show "fifo [] None (trace s)" by (rule f)
  fix tr1 tr2 t b i j
  assume a: "trace s = tr1 @ Resumed t b # tr2
           \<and> i < j \<and> j < length (pushed (trace s)) \<and> pushed (trace s) ! j = b"
  then have tr: "trace s = tr1 @ Resumed t b # tr2" and ij: "i < j"
    and j: "j < length (pushed (trace s))" "pushed (trace s) ! j = b"
    by blast+
  from f tr fifo_resumed_head[of tr1 t b tr2] obtain w where
    c: "completed tr1 = resumed tr1" and p: "pushed tr1 = resumed tr1 @ b # w"
    by auto
  from handover_distinct[OF ho] have d: "distinct (pushed (trace s))" by simp
  from tr p have all: "pushed (trace s) = resumed tr1 @ b # w @ pushed tr2" by simp
  then have "pushed (trace s) ! length (resumed tr1) = b"
    and "length (resumed tr1) < length (pushed (trace s))"
    by (simp_all add: nth_append)
  with d j have "j = length (resumed tr1)"
    using nth_eq_iff_index_eq[of "pushed (trace s)" j "length (resumed tr1)"] by metis
  with ij all have "pushed (trace s) ! i = resumed tr1 ! i" "i < length (resumed tr1)"
    by (simp_all add: nth_append)
  with c show "pushed (trace s) ! i \<in> set (completed tr1)" by simp
qed

theorem fifo_single_worker_witness:
  "trace two_in_line
     = [Pushed 1 0, Notified 1, Pushed 2 1, Notified 2,
        Resumed 0 0, Wrote 0 (Value 7), Completed 0 0, Resumed 0 1]
   \<and> pushed (trace two_in_line) = [0, 1]
   \<and> fifo [] None (trace two_in_line)
   \<and> pushed (trace two_in_line) ! 0
       \<in> set (completed [Pushed 1 0, Notified 1, Pushed 2 1, Notified 2,
                          Resumed 0 0, Wrote 0 (Value 7), Completed 0 0])"
proof -
  have r: "two_in_line =
     run [Step 1, Step 1, Step 1, Step 1, Step 1, Step 1,
          Step 2, Step 2, Step 2, Step 2, Step 2, Step 2,
          Step 0, Step 0, Step 0, Step 0, Step 0, Step 0, Step 0, Step 0,
          Step 0, Step 0, Step 0, Step 0, Step 0]
       (init 1 [one_submission, one_submission])"
    by (simp only: two_in_line_def)
  have tr: "trace two_in_line
     = [Pushed 1 0, Notified 1, Pushed 2 1, Notified 2,
        Resumed 0 0, Wrote 0 (Value 7), Completed 0 0] @ Resumed 0 1 # []"
    by (simp add: two_in_line_def one_submission_def exec)
  then have p: "pushed (trace two_in_line) = [0, 1]" by simp
  from fifo_single_worker[OF r] tr p
  have "fifo [] None (trace two_in_line)
     \<and> pushed (trace two_in_line) ! 0
         \<in> set (completed [Pushed 1 0, Notified 1, Pushed 2 1, Notified 2,
                            Resumed 0 0, Wrote 0 (Value 7), Completed 0 0])"
    by (metis One_nat_def length_Cons lessI list.size(3) nth_Cons_0 nth_Cons_Suc zero_less_one)
  with tr p show ?thesis by simp
qed

section \<open>The example scenario\<close>



end
